theory Spec2Isabelle
  imports Main "HOL-Library.Word"
begin

section \<open>The BSON codec of ext/cbson/cbson.c\<close>

text \<open>
  A shallow embedding of the C extension \<^verbatim>\<open>cbson.c\<close>: the serializer
  (\<^verbatim>\<open>method_serialize\<close>, \<^verbatim>\<open>write_doc\<close>, \<^verbatim>\<open>write_element_allow_id\<close>) and the
  deserializer (\<^verbatim>\<open>method_deserialize\<close>, \<^verbatim>\<open>elements_to_hash\<close>, \<^verbatim>\<open>get_value\<close>).

  Configuration that is modelled: \<^verbatim>\<open>HAVE_RUBY_ENCODING_H\<close> undefined (so \<^verbatim>\<open>TO_UTF8\<close> is the
  identity and \<^verbatim>\<open>write_utf8\<close> asks for the UTF-8 check), a little-endian machine whose
  \<^verbatim>\<open>char\<close> is signed, \<^verbatim>\<open>int\<close> of 32 and \<^verbatim>\<open>long long\<close> of 64 bits. A C \<^verbatim>\<open>char\<close> is a HOL
  \<^typ>\<open>char\<close>; a Ruby string is the list of its bytes. Memory is unbounded: the
  \<^verbatim>\<open>NoMemError\<close> branches of \<^verbatim>\<open>SAFE_WRITE\<close> are never taken. Values are trees: two
  occurrences of one Ruby object are two equal subtrees.
\<close>

subsection \<open>Errors and values\<close>

datatype error =
    RuntimeError           \<comment> \<open>invalid write at position in buffer.c\<close>
  | TypeError_key          \<comment> \<open>keys must be strings or symbols\<close>
  | InvalidName            \<comment> \<open>key must not start with '$' / must not contain '.'\<close>
  | RangeError             \<comment> \<open>MongoDB can only handle 8-byte ints\<close>
  | InvalidDocument        \<comment> \<open>NULL byte in a name, unsupported class, document too large\<close>
  | InvalidStringEncoding  \<comment> \<open>String not valid UTF-8\<close>
  | TypeError_decoder int  \<comment> \<open>no c decoder for this type yet (%d)\<close>
  | ArgumentError          \<comment> \<open>rb_str_new with a negative length\<close>
  | Undefined_read         \<comment> \<open>a read outside the bytes: undefined behaviour in C\<close>

text \<open>The class of a hash decides how \<^verbatim>\<open>write_doc\<close> walks it.\<close>

datatype hclass = OrderedHash | PlainHash

text \<open>A hash key: a String, a Symbol (by its name), or an object of another type.\<close>

datatype key = KStr string | KSym string | KOther

text \<open>
  The Ruby values, by the \<^verbatim>\<open>TYPE(value)\<close> and class name that \<^verbatim>\<open>write_element_allow_id\<close>
  switches on. A hash is the list of its pairs in iteration order. A Float is its 64-bit
  image, a Time is \<^verbatim>\<open>round(to_f * 1000)\<close>, a Regexp is its source, its option bits and
  its \<^verbatim>\<open>extra_options_str\<close> when it responds to that.
\<close>

datatype rvalue =
    VInt int                                     \<comment> \<open>T_FIXNUM, T_BIGNUM\<close>
  | VTrue
  | VFalse
  | VFloat "64 word"                             \<comment> \<open>T_FLOAT\<close>
  | VNil
  | VHash hclass "(key \<times> rvalue) list"          \<comment> \<open>T_HASH\<close>
  | VArray "rvalue list"                         \<comment> \<open>T_ARRAY\<close>
  | VString string                               \<comment> \<open>T_STRING, not a Mongo::Code\<close>
  | VCode string hclass "(key \<times> rvalue) list"   \<comment> \<open>T_STRING of class Mongo::Code, with its scope\<close>
  | VSymbol string                               \<comment> \<open>T_SYMBOL\<close>
  | VBinary int string                           \<comment> \<open>Mongo::Binary: subtype and to_s\<close>
  | VByteBuffer string                           \<comment> \<open>ByteBuffer: to_s\<close>
  | VObjectID "int list"                         \<comment> \<open>Mongo::ObjectID: to_a\<close>
  | VDBRef rvalue rvalue                         \<comment> \<open>Mongo::DBRef: namespace and object_id\<close>
  | VMaxKey
  | VMinKey
  | VObject string                               \<comment> \<open>any other T_OBJECT, by class name\<close>
  | VTime int                                    \<comment> \<open>T_DATA of class Time\<close>
  | VData string                                 \<comment> \<open>any other T_DATA, by class name\<close>
  | VRegexp string int "string option"           \<comment> \<open>T_REGEXP\<close>
  | VOther string                                \<comment> \<open>any other type, by class name\<close>

subsection \<open>What the build and the machine leave open\<close>

text \<open>
  \<^verbatim>\<open>utf8_valid\<close> is the UTF-8 test of \<^verbatim>\<open>encoding_helpers.c\<close>.
  \<^verbatim>\<open>foreach_allow_id\<close> is the fourth argument that \<^verbatim>\<open>write_element_allow_id\<close> finds
  when \<^verbatim>\<open>rb_hash_foreach\<close> calls it with three: \<^verbatim>\<open>write_doc\<close> packs \<^verbatim>\<open>allow_id\<close> into the
  array it passes as \<^verbatim>\<open>extra\<close>, and the callback never reads it from there.
\<close>

record env =
  utf8_valid :: "string \<Rightarrow> bool"
  foreach_allow_id :: int

subsection \<open>Bytes\<close>

text \<open>\<^verbatim>\<open>(char*)&x\<close> for \<^verbatim>\<open>n\<close> bytes of a two's complement integer, low byte first.\<close>

fun le_bytes :: "nat \<Rightarrow> int \<Rightarrow> string" where
  "le_bytes 0 v = []"
| "le_bytes (Suc n) v = char_of v # le_bytes n (v div 256)"

text \<open>The unsigned value of bytes, low byte first, and its reading as \<open>w\<close>-bit signed.\<close>

fun le_value :: "string \<Rightarrow> int" where
  "le_value [] = 0"
| "le_value (c # cs) = of_char c + 256 * le_value cs"

definition signed_of :: "nat \<Rightarrow> int \<Rightarrow> int" where
  "signed_of w u = (if u < 2 ^ (w - 1) then u else u - 2 ^ w)"

text \<open>A \<^verbatim>\<open>char\<close> converted to \<^verbatim>\<open>int\<close>.\<close>

definition schar :: "char \<Rightarrow> int" where
  "schar c = signed_of 8 (of_char c)"

text \<open>What a C function sees of a Ruby string through \<^verbatim>\<open>RSTRING_PTR\<close>: the bytes before the first NUL.\<close>

definition c_str :: "string \<Rightarrow> string" where
  "c_str s = takeWhile (\<lambda>c. c \<noteq> CHR 0x00) s"

text \<open>\<^verbatim>\<open>INT2STRING\<close>: \<^verbatim>\<open>asprintf(buffer, "%d", i)\<close> for an array index.\<close>

definition digit_char :: "nat \<Rightarrow> char" where
  "digit_char d = ''0123456789'' ! d"

fun int2string :: "nat \<Rightarrow> string" where
  "int2string n = (if n < 10 then [digit_char n] else int2string (n div 10) @ [digit_char (n mod 10)])"

declare int2string.simps [simp del]

text \<open>The option bits of a Regexp, as \<^verbatim>\<open>re.h\<close> and \<^verbatim>\<open>oniguruma.h\<close> give them.\<close>

definition IGNORECASE :: int where "IGNORECASE = 1"
definition EXTENDED :: int where "EXTENDED = 2"
definition MULTILINE :: int where "MULTILINE = 4"

subsection \<open>The byte buffer and the string check\<close>

text \<open>
  Modelled from the spec: \<^verbatim>\<open>buffer.c\<close> is not among the sources. Section 4.1: a growable
  byte container with a position cursor; \<^verbatim>\<open>append\<close>, \<^verbatim>\<open>reserve(n)\<close> returning the offset
  of \<open>n\<close> new bytes, \<^verbatim>\<open>patch(offset, bytes)\<close> overwriting an earlier region that must lie
  within the buffer, and \<^verbatim>\<open>position()\<close>. The buffer is the list of the bytes written.
\<close>

type_synonym buffer = string

definition buffer_write :: "buffer \<Rightarrow> string \<Rightarrow> buffer" where
  "buffer_write buf data = buf @ data"

definition buffer_get_position :: "buffer \<Rightarrow> nat" where
  "buffer_get_position buf = length buf"

definition buffer_save_space :: "buffer \<Rightarrow> nat \<Rightarrow> nat \<times> buffer" where
  "buffer_save_space buf n = (length buf, buf @ replicate n (CHR 0x00))"

definition buffer_write_at_position :: "buffer \<Rightarrow> nat \<Rightarrow> string \<Rightarrow> buffer option" where
  "buffer_write_at_position buf pos data =
     (if pos + length data \<le> length buf
      then Some (take pos buf @ data @ drop (pos + length data) buf)
      else None)"

text \<open>
  Modelled from the spec: \<^verbatim>\<open>check_string\<close> of \<^verbatim>\<open>encoding_helpers.c\<close> is not among the
  sources. Section 4.2: \<^verbatim>\<open>HAS_NULL\<close> iff NUL is not allowed and a 0x00 byte appears in the
  input; \<^verbatim>\<open>NOT_UTF8\<close> iff the input is not a valid UTF-8 sequence; otherwise \<^verbatim>\<open>OK\<close>.
  The arguments are those of the call in \<^verbatim>\<open>write_utf8\<close>: \<^verbatim>\<open>check_utf8\<close>, \<^verbatim>\<open>check_null\<close>.
\<close>

datatype result_t = VALID | NOT_UTF_8 | HAS_NULL

definition check_string :: "env \<Rightarrow> string \<Rightarrow> bool \<Rightarrow> bool \<Rightarrow> result_t" where
  "check_string env s check_utf8 check_null =
     (if check_null \<and> CHR 0x00 \<in> set s then HAS_NULL
      else if check_utf8 \<and> \<not> utf8_valid env s then NOT_UTF_8
      else VALID)"

subsection \<open>The serializer\<close>

definition write_utf8 :: "env \<Rightarrow> buffer \<Rightarrow> string \<Rightarrow> bool \<Rightarrow> error + buffer" where
  "write_utf8 env buf s check_null =
     (case check_string env s True check_null of
        HAS_NULL \<Rightarrow> Inl InvalidDocument
      | NOT_UTF_8 \<Rightarrow> Inl InvalidStringEncoding
      | VALID \<Rightarrow> Inr (buffer_write buf s))"

definition write_name_and_type :: "env \<Rightarrow> buffer \<Rightarrow> string \<Rightarrow> char \<Rightarrow> error + buffer" where
  "write_name_and_type env buf name type =
     (case write_utf8 env (buffer_write buf [type]) name True of
        Inl e \<Rightarrow> Inl e
      | Inr b \<Rightarrow> Inr (buffer_write b [CHR 0x00]))"

text \<open>The \<^verbatim>\<open>check_keys\<close> block of \<^verbatim>\<open>write_element_allow_id\<close>.\<close>

definition check_key_name :: "string \<Rightarrow> error option" where
  "check_key_name k =
     (if length k > 0 \<and> k ! 0 = CHR ''$'' then Some InvalidName
      else if list_ex (\<lambda>c. c = CHR ''.'') k then Some InvalidName
      else None)"

text \<open>The key as a String: a Symbol by \<^verbatim>\<open>rb_str_new2(rb_id2name(SYM2ID(key)))\<close>.\<close>

definition key_string :: "key \<Rightarrow> string option" where
  "key_string key = (case key of KSym n \<Rightarrow> Some (c_str n) | KStr s \<Rightarrow> Some s | KOther \<Rightarrow> None)"

text \<open>\<^verbatim>\<open>has_key?\<close>, \<^verbatim>\<open>rb_hash_aref\<close> and \<^verbatim>\<open>rb_hash_delete\<close> on the pairs of a hash.\<close>

definition has_key :: "(key \<times> rvalue) list \<Rightarrow> key \<Rightarrow> bool" where
  "has_key ps k = (map_of ps k \<noteq> None)"

definition rb_hash_delete :: "(key \<times> rvalue) list \<Rightarrow> key \<Rightarrow> (key \<times> rvalue) list" where
  "rb_hash_delete ps k = filter (\<lambda>p. fst p \<noteq> k) ps"

text \<open>
  Modelled from the spec: \<^verbatim>\<open>OrderedHash#keys\<close> of \<^verbatim>\<open>mongo/util/ordered_hash.rb\<close> is not among
  the sources. For an OrderedHash \<^verbatim>\<open>write_doc\<close> walks the Array that \<^verbatim>\<open>keys\<close> returns and looks
  each key up with \<^verbatim>\<open>rb_hash_aref\<close>. Section 3.1: an OrderedDocument is an ordered sequence of
  (key, value) pairs whose insertion order is observable; so that walk visits the pairs of the
  hash in their order, as \<^verbatim>\<open>rb_hash_foreach\<close> does for any other hash. The pairs are those
  that the hash has at the traversal: when \<^verbatim>\<open>move_id\<close> is not true and the hash has both the
  String key and the Symbol key \<^verbatim>\<open>_id\<close>, \<^verbatim>\<open>write_doc\<close> has deleted the String one from the
  hash before (\<^verbatim>\<open>rb_hash_delete\<close>).
\<close>

definition pairs_to_walk :: "bool \<Rightarrow> (key \<times> rvalue) list \<Rightarrow> (key \<times> rvalue) list" where
  "pairs_to_walk move_id ps =
     (if \<not> move_id \<and> has_key ps (KStr ''_id'') \<and> has_key ps (KSym ''_id'')
      then rb_hash_delete ps (KStr ''_id'')
      else ps)"

text \<open>
  The \<^verbatim>\<open>allow_id\<close> that the traversal of \<^verbatim>\<open>write_doc\<close> gives the element writer: for an
  OrderedHash the local variable (0 when \<^verbatim>\<open>move_id\<close> is true, else 1), for any other hash
  what the callback of \<^verbatim>\<open>rb_hash_foreach\<close> finds as its fourth argument.
\<close>

definition walk_allow_id :: "env \<Rightarrow> hclass \<Rightarrow> bool \<Rightarrow> int" where
  "walk_allow_id env cls move_id =
     (case cls of
        OrderedHash \<Rightarrow> (if move_id then 0 else 1)
      | PlainHash \<Rightarrow> foreach_allow_id env)"

text \<open>The Binary branch, shared by Mongo::Binary and ByteBuffer (whose subtype is 2).\<close>

definition write_binary :: "env \<Rightarrow> string \<Rightarrow> char \<Rightarrow> string \<Rightarrow> buffer \<Rightarrow> error + buffer" where
  "write_binary env k subtype string_data buf =
     (let length_data = int (length string_data) in
      case write_name_and_type env buf k (CHR 0x05) of
        Inl e \<Rightarrow> Inl e
      | Inr b \<Rightarrow>
          if subtype = CHR 0x02
          then Inr (buffer_write (buffer_write (buffer_write (buffer_write b
                 (le_bytes 4 (length_data + 4))) [subtype]) (le_bytes 4 length_data)) string_data)
          else Inr (buffer_write (buffer_write (buffer_write b
                 (le_bytes 4 length_data)) [subtype]) string_data))"

text \<open>The flag letters of the Regexp branch, before the extra ones.\<close>

definition regexp_flag_bytes :: "int \<Rightarrow> string" where
  "regexp_flag_bytes flags =
     (if and flags IGNORECASE \<noteq> 0 then ''i'' else []) @
     (if and flags MULTILINE \<noteq> 0 then ''m'' else []) @
     (if and flags EXTENDED \<noteq> 0 then ''x'' else [])"

text \<open>
  \<^verbatim>\<open>SAFE_WRITE_AT_POS\<close> of the length since \<open>start_position\<close> over the space saved
  there (\<open>length_location\<close> is \<open>start_position\<close> at every use).
\<close>

definition patch_length :: "buffer \<Rightarrow> nat \<Rightarrow> error + buffer" where
  "patch_length buf start_position =
     (case buffer_write_at_position buf start_position
             (le_bytes 4 (int (buffer_get_position buf - start_position))) of
        None \<Rightarrow> Inl RuntimeError
      | Some b \<Rightarrow> Inr b)"

text \<open>Closing an array or a DBRef: the NUL byte, then the length filled in.\<close>

definition close_object :: "buffer \<Rightarrow> nat \<Rightarrow> error + buffer" where
  "close_object buf start_position = patch_length (buffer_write buf [CHR 0x00]) start_position"

text \<open>
  Closing a document in \<^verbatim>\<open>write_doc\<close>: the NUL byte, the test of the length against 4MB,
  then the length filled in.
\<close>

definition close_doc :: "buffer \<Rightarrow> nat \<Rightarrow> error + buffer" where
  "close_doc buf start_position =
     (let b = buffer_write buf [CHR 0x00];
          len = buffer_get_position b - start_position
      in if len > 4 * 1024 * 1024 then Inl InvalidDocument
         else patch_length b start_position)"

lemma size_map_of_pairs:
  "map_of ps k = Some v \<Longrightarrow> size v < Suc (size_list (size_prod (\<lambda>x. 0) size) ps)"
  by (induction ps) (auto split: if_splits)

lemma size_list_filter_le: "size_list f (filter P xs) \<le> size_list f xs"
  by (induction xs) auto

lemma size_pairs_to_walk:
  "3 * size_list (size_prod (\<lambda>x. 0) size) (pairs_to_walk mv ps)
     < Suc (Suc (3 * size_list (size_prod (\<lambda>x. 0) size) ps))"
proof -
  have "size_list (size_prod (\<lambda>x. 0) size) (pairs_to_walk mv ps)
          \<le> size_list (size_prod (\<lambda>x. 0) size) ps"
    by (simp add: pairs_to_walk_def rb_hash_delete_def size_list_filter_le)
  then show ?thesis by simp
qed

text \<open>
  \<^verbatim>\<open>write_element_allow_id\<close> (its prologue, then its \<^verbatim>\<open>switch\<close> as \<open>write_value\<close>),
  \<^verbatim>\<open>write_doc\<close>, the traversal of the pairs (\<open>write_pairs\<close>: the loop over the keys of an
  OrderedHash and \<^verbatim>\<open>rb_hash_foreach\<close>) and the loop of the array branch (\<open>write_items\<close>).
  \<^verbatim>\<open>write_element\<close> is \<^verbatim>\<open>write_element_allow_id\<close> with \<^verbatim>\<open>allow_id = 0\<close>.
  The result is the error raised, or the buffer.
\<close>

function (sequential)
  write_element_allow_id :: "env \<Rightarrow> key \<Rightarrow> rvalue \<Rightarrow> buffer \<Rightarrow> bool \<Rightarrow> int \<Rightarrow> error + buffer"
and write_value :: "env \<Rightarrow> string \<Rightarrow> rvalue \<Rightarrow> buffer \<Rightarrow> bool \<Rightarrow> error + buffer"
and write_doc :: "env \<Rightarrow> buffer \<Rightarrow> hclass \<Rightarrow> (key \<times> rvalue) list \<Rightarrow> bool \<Rightarrow> bool \<Rightarrow> error + buffer"
and write_pairs :: "env \<Rightarrow> (key \<times> rvalue) list \<Rightarrow> buffer \<Rightarrow> bool \<Rightarrow> int \<Rightarrow> error + buffer"
and write_items :: "env \<Rightarrow> rvalue list \<Rightarrow> nat \<Rightarrow> buffer \<Rightarrow> bool \<Rightarrow> error + buffer"
where
  "write_element_allow_id env key val buf check_keys allow_id =
     (case key_string key of
        None \<Rightarrow> Inl TypeError_key
      | Some k \<Rightarrow>
          if allow_id = 0 \<and> c_str k = ''_id'' then Inr buf
          else (case (if check_keys then check_key_name k else None) of
                  Some e \<Rightarrow> Inl e
                | None \<Rightarrow> write_value env k val buf check_keys))"

| "write_value env k (VInt v) buf check_keys =
     (if v > 9223372036854775807 \<or> v < - 9223372036854775808 then Inl RangeError
      else if v > 2147483647 \<or> v < - 2147483648 then
        (case write_name_and_type env buf k (CHR 0x12) of
           Inl e \<Rightarrow> Inl e
         | Inr b \<Rightarrow> Inr (buffer_write b (le_bytes 8 v)))
      else
        (case write_name_and_type env buf k (CHR 0x10) of
           Inl e \<Rightarrow> Inl e
         | Inr b \<Rightarrow> Inr (buffer_write b (le_bytes 4 v))))"
| "write_value env k VTrue buf check_keys =
     (case write_name_and_type env buf k (CHR 0x08) of
        Inl e \<Rightarrow> Inl e
      | Inr b \<Rightarrow> Inr (buffer_write b [CHR 0x01]))"
| "write_value env k VFalse buf check_keys =
     (case write_name_and_type env buf k (CHR 0x08) of
        Inl e \<Rightarrow> Inl e
      | Inr b \<Rightarrow> Inr (buffer_write b [CHR 0x00]))"
| "write_value env k (VFloat d) buf check_keys =
     (case write_name_and_type env buf k (CHR 0x01) of
        Inl e \<Rightarrow> Inl e
      | Inr b \<Rightarrow> Inr (buffer_write b (le_bytes 8 (uint d))))"
| "write_value env k VNil buf check_keys = write_name_and_type env buf k (CHR 0x0A)"
| "write_value env k (VHash cls ps) buf check_keys =
     (case write_name_and_type env buf k (CHR 0x03) of
        Inl e \<Rightarrow> Inl e
      | Inr b \<Rightarrow> write_doc env b cls ps check_keys False)"
| "write_value env k (VArray vals) buf check_keys =
     (case write_name_and_type env buf k (CHR 0x04) of
        Inl e \<Rightarrow> Inl e
      | Inr b \<Rightarrow>
          (let start_position = buffer_get_position b;
               (length_location, b1) = buffer_save_space b 4
           in case write_items env vals 0 b1 check_keys of
                Inl e \<Rightarrow> Inl e
              | Inr b2 \<Rightarrow> close_object b2 start_position))"
| "write_value env k (VString s) buf check_keys =
     (case write_name_and_type env buf k (CHR 0x02) of
        Inl e \<Rightarrow> Inl e
      | Inr b \<Rightarrow>
          (case write_utf8 env (buffer_write b (le_bytes 4 (int (length s) + 1))) s False of
             Inl e \<Rightarrow> Inl e
           | Inr b' \<Rightarrow> Inr (buffer_write b' [CHR 0x00])))"
| "write_value env k (VCode code cls scope) buf check_keys =
     (case write_name_and_type env buf k (CHR 0x0F) of
        Inl e \<Rightarrow> Inl e
      | Inr b \<Rightarrow>
          (let start_position = buffer_get_position b;
               (length_location, b1) = buffer_save_space b 4;
               b2 = buffer_write b1 (le_bytes 4 (int (length code) + 1));
               b3 = buffer_write b2 code;
               b4 = buffer_write b3 [CHR 0x00]
           in case write_doc env b4 cls scope False False of
                Inl e \<Rightarrow> Inl e
              | Inr b5 \<Rightarrow> patch_length b5 start_position))"
| "write_value env k (VSymbol name) buf check_keys =
     (let str_value = c_str name;
          len = int (length str_value) + 1
      in case write_name_and_type env buf k (CHR 0x0E) of
           Inl e \<Rightarrow> Inl e
         | Inr b \<Rightarrow> Inr (buffer_write (buffer_write b (le_bytes 4 len)) (str_value @ [CHR 0x00])))"
| "write_value env k (VBinary subtype string_data) buf check_keys =
     write_binary env k (char_of subtype) string_data buf"
| "write_value env k (VByteBuffer string_data) buf check_keys =
     write_binary env k (CHR 0x02) string_data buf"
| "write_value env k (VObjectID as_array) buf check_keys =
     (case write_name_and_type env buf k (CHR 0x07) of
        Inl e \<Rightarrow> Inl e
      | Inr b \<Rightarrow>
          if length as_array < 12 then Inl Undefined_read
          else Inr (buffer_write b (map char_of (take 12 as_array))))"
| "write_value env k (VDBRef ns oid) buf check_keys =
     (case write_name_and_type env buf k (CHR 0x03) of
        Inl e \<Rightarrow> Inl e
      | Inr b \<Rightarrow>
          (let start_position = buffer_get_position b;
               (length_location, b1) = buffer_save_space b 4
           in case write_element_allow_id env (KStr ''$ref'') ns b1 False 0 of
                Inl e \<Rightarrow> Inl e
              | Inr b2 \<Rightarrow>
                  (case write_element_allow_id env (KStr ''$id'') oid b2 False 0 of
                     Inl e \<Rightarrow> Inl e
                   | Inr b3 \<Rightarrow> close_object b3 start_position)))"
| "write_value env k VMaxKey buf check_keys = write_name_and_type env buf k (CHR 0x7F)"
| "write_value env k VMinKey buf check_keys = write_name_and_type env buf k (CHR 0xFF)"
| "write_value env k (VObject cls) buf check_keys = Inl InvalidDocument"
| "write_value env k (VTime time_since_epoch) buf check_keys =
     (case write_name_and_type env buf k (CHR 0x09) of
        Inl e \<Rightarrow> Inl e
      | Inr b \<Rightarrow> Inr (buffer_write b (le_bytes 8 time_since_epoch)))"
| "write_value env k (VData cls) buf check_keys = Inl InvalidDocument"
| "write_value env k (VRegexp pattern flags extra) buf check_keys =
     (case write_name_and_type env buf k (CHR 0x0B) of
        Inl e \<Rightarrow> Inl e
      | Inr b \<Rightarrow>
          (case write_utf8 env b pattern True of
             Inl e \<Rightarrow> Inl e
           | Inr b1 \<Rightarrow>
               (let b2 = buffer_write (buffer_write b1 [CHR 0x00]) (regexp_flag_bytes flags);
                    b3 = (case extra of
                            None \<Rightarrow> b2
                          | Some ex \<Rightarrow> buffer_write b2 (sort_key schar ex))
                in Inr (buffer_write b3 [CHR 0x00]))))"
| "write_value env k (VOther cls) buf check_keys = Inl InvalidDocument"

| "write_doc env buf cls ps check_keys move_id =
     (let start_position = buffer_get_position buf;
          (length_location, b0) = buffer_save_space buf 4
      in case (if move_id then
                 (case map_of ps (KStr ''_id'') of
                    Some idv \<Rightarrow> write_element_allow_id env (KStr ''_id'') idv b0 check_keys 1
                  | None \<Rightarrow>
                      (case map_of ps (KSym ''_id'') of
                         Some idv \<Rightarrow> write_element_allow_id env (KSym ''_id'') idv b0 check_keys 1
                       | None \<Rightarrow> Inr b0))
               else Inr b0) of
           Inl e \<Rightarrow> Inl e
         | Inr b1 \<Rightarrow>
             (case write_pairs env (pairs_to_walk move_id ps) b1 check_keys
                     (walk_allow_id env cls move_id) of
                Inl e \<Rightarrow> Inl e
              | Inr b2 \<Rightarrow> close_doc b2 start_position))"

| "write_pairs env [] buf check_keys allow_id = Inr buf"
| "write_pairs env ((key, val) # rest) buf check_keys allow_id =
     (case write_element_allow_id env key val buf check_keys allow_id of
        Inl e \<Rightarrow> Inl e
      | Inr b \<Rightarrow> write_pairs env rest b check_keys allow_id)"

| "write_items env [] i buf check_keys = Inr buf"
| "write_items env (val # vals) i buf check_keys =
     (case write_element_allow_id env (KStr (int2string i)) val buf check_keys 0 of
        Inl e \<Rightarrow> Inl e
      | Inr b \<Rightarrow> write_items env vals (Suc i) b check_keys)"
  by pat_completeness auto
termination
  by (relation "measure (\<lambda>x. case x of
          Inl (Inl (env, key, val, buf, ck, a)) \<Rightarrow> 3 * size val + 2
        | Inl (Inr (env, k, val, buf, ck)) \<Rightarrow> 3 * size val + 1
        | Inr (Inl (env, buf, cls, ps, ck, mv)) \<Rightarrow> 3 * size_list (size_prod (\<lambda>x. 0) size) ps + 3
        | Inr (Inr (Inl (env, ps, buf, ck, a))) \<Rightarrow> 3 * size_list (size_prod (\<lambda>x. 0) size) ps + 1
        | Inr (Inr (Inr (env, vals, i, buf, ck))) \<Rightarrow> 3 * size_list size vals + 1)")
     (auto dest: size_map_of_pairs simp: size_pairs_to_walk)

declare write_element_allow_id.simps [simp del] write_doc.simps [simp del]

text \<open>\<^verbatim>\<open>method_serialize\<close>: a new buffer, \<^verbatim>\<open>write_doc\<close>, and the bytes written.\<close>

definition method_serialize :: "env \<Rightarrow> hclass \<Rightarrow> (key \<times> rvalue) list \<Rightarrow> bool \<Rightarrow> bool \<Rightarrow> error + string" where
  "method_serialize env cls doc check_keys move_id = write_doc env [] cls doc check_keys move_id"

subsection \<open>The deserializer\<close>























subsection \<open>Notions used in the statements\<close>

text \<open>A result moved behind the bytes \<open>buf\<close> that were in the buffer before.\<close>

definition reloc :: "buffer \<Rightarrow> error + buffer \<Rightarrow> error + buffer" where
  "reloc buf r = (case r of Inl e \<Rightarrow> Inl e | Inr seg \<Rightarrow> Inr (buf @ seg))"

text \<open>
  The elements that \<^verbatim>\<open>write_doc\<close> hands to the element writer, in order, each with its
  \<^verbatim>\<open>allow_id\<close>: the \<^verbatim>\<open>_id\<close> pair first when \<^verbatim>\<open>move_id\<close> is true (\<open>id_first\<close>), then the
  pairs of the traversal. \<open>segments\<close> joins what each element gives when written alone into
  an empty buffer; \<open>framed\<close> is the length, the body and the NUL byte, within 4MB.
\<close>

definition id_first :: "(key \<times> rvalue) list \<Rightarrow> (key \<times> rvalue) list" where
  "id_first ps =
     (case map_of ps (KStr ''_id'') of
        Some v \<Rightarrow> [(KStr ''_id'', v)]
      | None \<Rightarrow> (case map_of ps (KSym ''_id'') of Some v \<Rightarrow> [(KSym ''_id'', v)] | None \<Rightarrow> []))"

definition emitted :: "env \<Rightarrow> hclass \<Rightarrow> bool \<Rightarrow> (key \<times> rvalue) list \<Rightarrow> (key \<times> rvalue \<times> int) list" where
  "emitted env cls move_id ps =
     (if move_id then map (\<lambda>(k, v). (k, v, 1)) (id_first ps) else []) @
     map (\<lambda>(k, v). (k, v, walk_allow_id env cls move_id)) (pairs_to_walk move_id ps)"

fun segments :: "env \<Rightarrow> bool \<Rightarrow> (key \<times> rvalue \<times> int) list \<Rightarrow> error + string" where
  "segments env check_keys [] = Inr []"
| "segments env check_keys ((k, v, a) # es) =
     (case write_element_allow_id env k v [] check_keys a of
        Inl e \<Rightarrow> Inl e
      | Inr s \<Rightarrow> (case segments env check_keys es of Inl e \<Rightarrow> Inl e | Inr r \<Rightarrow> Inr (s @ r)))"

definition framed :: "error + string \<Rightarrow> error + string" where
  "framed r =
     (case r of
        Inl e \<Rightarrow> Inl e
      | Inr body \<Rightarrow>
          if length body + 5 > 4 * 1024 * 1024 then Inl InvalidDocument
          else Inr (le_bytes 4 (int (length body) + 5) @ body @ [CHR 0x00]))"

subsection \<open>The document after the call\<close>

text \<open>
  \<^verbatim>\<open>write_doc\<close> also changes the hash it is given: \<^verbatim>\<open>rb_hash_delete(hash, id_str)\<close> when
  \<^verbatim>\<open>move_id\<close> is not true and both keys \<^verbatim>\<open>_id\<close> are there. The functions below follow the
  same calls as the writers and give the value, the pairs or the array elements as they are
  once the call has returned or raised: what was walked before an error keeps its change.
  A hash holds references, so a change inside the \<^verbatim>\<open>_id\<close> value written first stays in the
  hash (\<open>store_value\<close> on its first pair of that key); the traversal then meets that value
  only if it is not skipped, and walking it a second time changes nothing more, so the
  traversal is taken over the pairs as they were.
\<close>

fun store_value :: "key \<Rightarrow> rvalue \<Rightarrow> (key \<times> rvalue) list \<Rightarrow> (key \<times> rvalue) list" where
  "store_value k v' [] = []"
| "store_value k v' ((k', v) # ps) = (if k' = k then (k', v') # ps else (k', v) # store_value k v' ps)"

lemma size_id_first:
  "id_first ps = (k, v) # r \<Longrightarrow> size v < Suc (size_list (size_prod (\<lambda>x. 0) size) ps)"
  by (auto simp: id_first_def dest: size_map_of_pairs split: option.splits)

function (sequential)
  element_after :: "env \<Rightarrow> key \<Rightarrow> rvalue \<Rightarrow> buffer \<Rightarrow> bool \<Rightarrow> int \<Rightarrow> rvalue"
and value_after :: "env \<Rightarrow> string \<Rightarrow> rvalue \<Rightarrow> buffer \<Rightarrow> bool \<Rightarrow> rvalue"
and doc_after :: "env \<Rightarrow> buffer \<Rightarrow> hclass \<Rightarrow> (key \<times> rvalue) list \<Rightarrow> bool \<Rightarrow> bool \<Rightarrow> (key \<times> rvalue) list"
and pairs_after :: "env \<Rightarrow> (key \<times> rvalue) list \<Rightarrow> buffer \<Rightarrow> bool \<Rightarrow> int \<Rightarrow> (key \<times> rvalue) list"
and items_after :: "env \<Rightarrow> rvalue list \<Rightarrow> nat \<Rightarrow> buffer \<Rightarrow> bool \<Rightarrow> rvalue list"
where
  "element_after env key val buf check_keys allow_id =
     (case key_string key of
        None \<Rightarrow> val
      | Some k \<Rightarrow>
          if allow_id = 0 \<and> c_str k = ''_id'' then val
          else (case (if check_keys then check_key_name k else None) of
                  Some e \<Rightarrow> val
                | None \<Rightarrow> value_after env k val buf check_keys))"

| "value_after env k (VHash cls ps) buf check_keys =
     (case write_name_and_type env buf k (CHR 0x03) of
        Inl e \<Rightarrow> VHash cls ps
      | Inr b \<Rightarrow> VHash cls (doc_after env b cls ps check_keys False))"
| "value_after env k (VArray vals) buf check_keys =
     (case write_name_and_type env buf k (CHR 0x04) of
        Inl e \<Rightarrow> VArray vals
      | Inr b \<Rightarrow> VArray (items_after env vals 0 (snd (buffer_save_space b 4)) check_keys))"
| "value_after env k (VCode code cls scope) buf check_keys =
     (case write_name_and_type env buf k (CHR 0x0F) of
        Inl e \<Rightarrow> VCode code cls scope
      | Inr b \<Rightarrow>
          (let b1 = snd (buffer_save_space b 4);
               b2 = buffer_write b1 (le_bytes 4 (int (length code) + 1));
               b3 = buffer_write b2 code;
               b4 = buffer_write b3 [CHR 0x00]
           in VCode code cls (doc_after env b4 cls scope False False)))"
| "value_after env k (VDBRef ns oid) buf check_keys =
     (case write_name_and_type env buf k (CHR 0x03) of
        Inl e \<Rightarrow> VDBRef ns oid
      | Inr b \<Rightarrow>
          (let b1 = snd (buffer_save_space b 4)
           in case write_element_allow_id env (KStr ''$ref'') ns b1 False 0 of
                Inl e \<Rightarrow> VDBRef (element_after env (KStr ''$ref'') ns b1 False 0) oid
              | Inr b2 \<Rightarrow>
                  VDBRef (element_after env (KStr ''$ref'') ns b1 False 0)
                         (element_after env (KStr ''$id'') oid b2 False 0)))"
| "value_after env k val buf check_keys = val"

| "doc_after env buf cls ps check_keys move_id =
     (let b0 = snd (buffer_save_space buf 4)
      in if move_id then
           (case id_first ps of
              [] \<Rightarrow> pairs_after env ps b0 check_keys (walk_allow_id env cls move_id)
            | (idk, idv) # r \<Rightarrow>
                (case write_element_allow_id env idk idv b0 check_keys 1 of
                   Inl e \<Rightarrow> store_value idk (element_after env idk idv b0 check_keys 1) ps
                 | Inr b1 \<Rightarrow>
                     store_value idk (element_after env idk idv b0 check_keys 1)
                       (pairs_after env ps b1 check_keys (walk_allow_id env cls move_id))))
         else pairs_after env (pairs_to_walk move_id ps) b0 check_keys (walk_allow_id env cls move_id))"

| "pairs_after env [] buf check_keys allow_id = []"
| "pairs_after env ((key, val) # rest) buf check_keys allow_id =
     (key, element_after env key val buf check_keys allow_id) #
     (case write_element_allow_id env key val buf check_keys allow_id of
        Inl e \<Rightarrow> rest
      | Inr b \<Rightarrow> pairs_after env rest b check_keys allow_id)"

| "items_after env [] i buf check_keys = []"
| "items_after env (val # vals) i buf check_keys =
     element_after env (KStr (int2string i)) val buf check_keys 0 #
     (case write_element_allow_id env (KStr (int2string i)) val buf check_keys 0 of
        Inl e \<Rightarrow> vals
      | Inr b \<Rightarrow> items_after env vals (Suc i) b check_keys)"
  by pat_completeness auto
termination
  by (relation "measure (\<lambda>x. case x of
          Inl (Inl (env, key, val, buf, ck, a)) \<Rightarrow> 3 * size val + 2
        | Inl (Inr (env, k, val, buf, ck)) \<Rightarrow> 3 * size val + 1
        | Inr (Inl (env, buf, cls, ps, ck, mv)) \<Rightarrow> 3 * size_list (size_prod (\<lambda>x. 0) size) ps + 3
        | Inr (Inr (Inl (env, ps, buf, ck, a))) \<Rightarrow> 3 * size_list (size_prod (\<lambda>x. 0) size) ps + 1
        | Inr (Inr (Inr (env, vals, i, buf, ck))) \<Rightarrow> 3 * size_list size vals + 1)")
     (auto dest: size_id_first simp: size_pairs_to_walk)

declare element_after.simps [simp del] doc_after.simps [simp del]

definition document_after_serialize :: "env \<Rightarrow> hclass \<Rightarrow> (key \<times> rvalue) list \<Rightarrow> bool \<Rightarrow> bool \<Rightarrow> (key \<times> rvalue) list" where
  "document_after_serialize env cls doc check_keys move_id = doc_after env [] cls doc check_keys move_id"


text \<open>No hash under a value has both keys \<^verbatim>\<open>_id\<close>; for pairs and items, under their values.\<close>

definition both_id_keys :: "(key \<times> rvalue) list \<Rightarrow> bool" where
  "both_id_keys ps = (has_key ps (KStr ''_id'') \<and> has_key ps (KSym ''_id''))"

fun no_id_clash :: "rvalue \<Rightarrow> bool"
  and pairs_no_id_clash :: "(key \<times> rvalue) list \<Rightarrow> bool"
  and items_no_id_clash :: "rvalue list \<Rightarrow> bool"
where
  "no_id_clash (VHash cls ps) = (\<not> both_id_keys ps \<and> pairs_no_id_clash ps)"
| "no_id_clash (VArray vals) = items_no_id_clash vals"
| "no_id_clash (VCode code cls scope) = (\<not> both_id_keys scope \<and> pairs_no_id_clash scope)"
| "no_id_clash (VDBRef ns oid) = (no_id_clash ns \<and> no_id_clash oid)"
| "no_id_clash v = True"
| "pairs_no_id_clash [] = True"
| "pairs_no_id_clash ((k, v) # ps) = (no_id_clash v \<and> pairs_no_id_clash ps)"
| "items_no_id_clash [] = True"
| "items_no_id_clash (v # vals) = (no_id_clash v \<and> items_no_id_clash vals)"

subsection \<open>The keys that are checked\<close>

text \<open>
  The keys that \<^verbatim>\<open>check_keys\<close> reaches under a value all pass the check: the keys of a
  hash that are written (not skipped as \<^verbatim>\<open>_id\<close>) and, below them, the keys of nested
  hashes and of the hashes in arrays. The scope of a Code and what lies in a DBRef are
  written with \<^verbatim>\<open>check_keys\<close> false and are not looked at.
\<close>

function (sequential) keys_pass :: "env \<Rightarrow> rvalue \<Rightarrow> bool"
  and pairs_pass :: "env \<Rightarrow> int \<Rightarrow> (key \<times> rvalue) list \<Rightarrow> bool"
  and items_pass :: "env \<Rightarrow> rvalue list \<Rightarrow> bool"
where
  "keys_pass env (VHash cls ps) = pairs_pass env (walk_allow_id env cls False) (pairs_to_walk False ps)"
| "keys_pass env (VArray vals) = items_pass env vals"
| "keys_pass env v = True"
| "pairs_pass env a [] = True"
| "pairs_pass env a ((k, v) # ps) =
     ((case key_string k of
         None \<Rightarrow> False
       | Some s \<Rightarrow> (a = 0 \<and> c_str s = ''_id'') \<or> (check_key_name s = None \<and> keys_pass env v))
      \<and> pairs_pass env a ps)"
| "items_pass env [] = True"
| "items_pass env (v # vals) = (keys_pass env v \<and> items_pass env vals)"
  by pat_completeness auto
termination
  by (relation "measure (\<lambda>x. case x of
          Inl (env, v) \<Rightarrow> 3 * size v
        | Inr (Inl (env, a, ps)) \<Rightarrow> 3 * size_list (size_prod (\<lambda>x. 0) size) ps + 1
        | Inr (Inr (env, vals)) \<Rightarrow> 3 * size_list size vals + 1)")
     (auto simp: size_pairs_to_walk)


definition doc_keys_pass :: "env \<Rightarrow> hclass \<Rightarrow> bool \<Rightarrow> (key \<times> rvalue) list \<Rightarrow> bool" where
  "doc_keys_pass env cls move_id ps =
     (list_all (\<lambda>p. keys_pass env (snd p)) (if move_id then id_first ps else [])
      \<and> pairs_pass env (walk_allow_id env cls move_id) (pairs_to_walk move_id ps))"


subsection \<open>The documents that are read back as they were written\<close>







section \<open>Properties\<close>

subsection \<open>Bytes and the buffer\<close>

lemmas buffer_defs = buffer_write_def buffer_get_position_def buffer_save_space_def buffer_write_at_position_def

lemma le_bytes_4: "le_bytes 4 v = [char_of v, char_of (v div 256), char_of (v div 256 div 256), char_of (v div 256 div 256 div 256)]"
  by (simp add: eval_nat_numeral)
lemma le_bytes_8: "le_bytes 8 v = le_bytes 4 v @ le_bytes 4 (v div 256 div 256 div 256 div 256)"
  by (simp add: eval_nat_numeral)
lemma replicate_4: "replicate 4 x = [x, x, x, x]"
  by (simp add: eval_nat_numeral)

lemma length_le_bytes [simp]: "length (le_bytes n v) = n"
  by (induction n arbitrary: v) auto

lemma le_value_le_bytes: "le_value (le_bytes n v) = v mod 256 ^ n"
proof (induction n arbitrary: v)
  case 0
  then show ?case by simp
next
  case (Suc n)
  have "v mod 256 + 256 * (v div 256 mod 256 ^ n) = v mod (256 * 256 ^ n)"
    using zmod_zmult2_eq [of "256 ^ n" v 256] by simp
  with Suc show ?case by simp
qed

lemma signed_of_le_bytes:
  assumes "0 < w" "- (2 ^ (8 * w - 1)) \<le> v" "v < 2 ^ (8 * w - 1)"
  shows "signed_of (8 * w) (le_value (le_bytes w v)) = v"
proof -
  have p: "(256::int) ^ w = 2 ^ (8 * w)"
    by (simp add: power_mult)
  have h: "(2::int) ^ (8 * w) = 2 * 2 ^ (8 * w - 1)"
    using assms(1) by (cases "8 * w") auto
  show ?thesis
  proof (cases "0 \<le> v")
    case True
    then have "v mod 2 ^ (8 * w) = v" using assms h by simp
    then show ?thesis using assms by (simp add: le_value_le_bytes p signed_of_def)
  next
    case False
    then have "(v + 2 ^ (8 * w)) mod 2 ^ (8 * w) = v + 2 ^ (8 * w)"
      using assms h by (intro mod_pos_pos_trivial) auto
    then have "v mod 2 ^ (8 * w) = v + 2 ^ (8 * w)"
      by simp
    then show ?thesis using assms False h by (simp add: le_value_le_bytes p signed_of_def)
  qed
qed

lemma write_name_and_type_valid:
  "check_string env k True True = VALID \<Longrightarrow>
     write_name_and_type env buf k t = Inr (buf @ [t] @ k @ [CHR 0x00])"
  by (simp add: write_name_and_type_def write_utf8_def buffer_write_def)


subsection \<open>The writers only append\<close>

lemma reloc_simps [simp]:
  "reloc buf (Inl e) = Inl e"
  "reloc buf (Inr seg) = Inr (buf @ seg)"
  by (simp_all add: reloc_def)

lemma reloc_Nil [simp]: "reloc [] r = r"
  by (cases r) simp_all

lemma reloc_eq_Inr: "reloc buf r = Inr b \<longleftrightarrow> (\<exists>seg. r = Inr seg \<and> b = buf @ seg)"
  by (cases r) auto

lemma reloc_eq_Inl: "reloc buf r = Inl e \<longleftrightarrow> r = Inl e"
  by (cases r) auto

lemma case_reloc [simp]:
  "(case reloc b r of Inl e \<Rightarrow> Inl e | Inr x \<Rightarrow> f x) = (case r of Inl e \<Rightarrow> Inl e | Inr x \<Rightarrow> f (b @ x))"
  by (cases r) simp_all

lemma reloc_reloc [simp]: "reloc b (reloc c r) = reloc (b @ c) r"
  by (cases r) simp_all

lemma reloc_case:
  "reloc b (case r of Inl e \<Rightarrow> Inl e | Inr x \<Rightarrow> f x) = (case r of Inl e \<Rightarrow> Inl e | Inr x \<Rightarrow> reloc b (f x))"
  by (cases r) simp_all

lemma write_utf8_reloc:
  "write_utf8 env (b @ c) s cn = reloc b (write_utf8 env c s cn)"
  by (simp add: write_utf8_def buffer_write_def split: result_t.splits)

lemma write_name_and_type_reloc:
  "write_name_and_type env (b @ c) k t = reloc b (write_name_and_type env c k t)"
  by (simp add: write_name_and_type_def write_utf8_def buffer_write_def split: result_t.splits)

lemma write_binary_reloc:
  "write_binary env k st d (b @ c) = reloc b (write_binary env k st d c)"
  by (simp add: write_binary_def Let_def buffer_write_def write_name_and_type_reloc
      split: sum.splits)

lemma write_element_reloc_of_value:
  assumes "\<And>env k b c ck. write_value env k v (b @ c) ck = reloc b (write_value env k v c ck)"
  shows "write_element_allow_id env key v (b @ c) ck a = reloc b (write_element_allow_id env key v c ck a)"
  by (simp add: write_element_allow_id.simps assms split: option.splits)

lemma write_pairs_reloc_aux:
  assumes "\<And>v env key b c ck a. v \<in> snd ` set ps \<Longrightarrow>
     write_element_allow_id env key v (b @ c) ck a = reloc b (write_element_allow_id env key v c ck a)"
  shows "write_pairs env ps (b @ c) ck a = reloc b (write_pairs env ps c ck a)"
  using assms
proof (induction ps arbitrary: c)
  case Nil
  then show ?case by simp
next
  case (Cons p ps)
  obtain k v where p: "p = (k, v)" by (cases p)
  have e: "write_element_allow_id env k v (b @ c) ck a = reloc b (write_element_allow_id env k v c ck a)"
    using Cons.prems [of v] p by simp
  have r: "write_pairs env ps (b @ c) ck a = reloc b (write_pairs env ps c ck a)" for c
    by (rule Cons.IH) (rule Cons.prems, simp)
  show ?case
    by (simp add: p e r reloc_case split: sum.splits)
qed

lemma write_items_reloc_aux:
  assumes "\<And>v env key b c ck a. v \<in> set vals \<Longrightarrow>
     write_element_allow_id env key v (b @ c) ck a = reloc b (write_element_allow_id env key v c ck a)"
  shows "write_items env vals i (b @ c) ck = reloc b (write_items env vals i c ck)"
  using assms
proof (induction vals arbitrary: c i)
  case Nil
  then show ?case by simp
next
  case (Cons v vals)
  have e: "\<And>key. write_element_allow_id env key v (b @ c) ck 0 = reloc b (write_element_allow_id env key v c ck 0)"
    using Cons.prems [of v] by simp
  have r: "write_items env vals i (b @ c) ck = reloc b (write_items env vals i c ck)" for c i
    by (rule Cons.IH) (rule Cons.prems, simp)
  show ?case
    by (simp add: e r reloc_case split: sum.splits)
qed


lemma buffer_write_at_position_reloc:
  "buffer_write_at_position (b @ x) (length b + p) d
     = map_option ((@) b) (buffer_write_at_position x p d)"
  by (simp add: buffer_write_at_position_def)

lemma snd_in_pairs_to_walk: "v \<in> snd ` set (pairs_to_walk mv ps) \<Longrightarrow> v \<in> snd ` set ps"
  by (auto simp: pairs_to_walk_def rb_hash_delete_def split: if_splits)

lemma map_of_snd_in: "map_of ps k = Some v \<Longrightarrow> v \<in> snd ` set ps"
  by (force dest: map_of_SomeD)

lemma patch_length_reloc:
  "patch_length (b @ x) (length b + p) = reloc b (patch_length x p)"
  by (simp add: patch_length_def buffer_get_position_def
        buffer_write_at_position_reloc split: option.splits)

lemma close_doc_reloc:
  "close_doc (b @ x) (length b + p) = reloc b (close_doc x p)"
  by (simp add: close_doc_def buffer_write_def buffer_get_position_def Let_def
        patch_length_reloc [of b "x @ [CHR 0x00]" p, simplified])

lemma close_object_reloc:
  "close_object (b @ x) (length b + p) = reloc b (close_object x p)"
  by (simp add: close_object_def buffer_write_def 
        patch_length_reloc [of b "x @ [CHR 0x00]" p, simplified])

lemma write_doc_reloc_aux:
  assumes E: "\<And>v env key b c ck a. v \<in> snd ` set ps \<Longrightarrow>
     write_element_allow_id env key v (b @ c) ck a = reloc b (write_element_allow_id env key v c ck a)"
  shows "write_doc env (b @ c) cls ps ck mv = reloc b (write_doc env c cls ps ck mv)"
proof -
  define F where "F = (\<lambda>b0. if mv then
                 (case map_of ps (KStr ''_id'') of
                    Some idv \<Rightarrow> write_element_allow_id env (KStr ''_id'') idv b0 ck 1
                  | None \<Rightarrow>
                      (case map_of ps (KSym ''_id'') of
                         Some idv \<Rightarrow> write_element_allow_id env (KSym ''_id'') idv b0 ck 1
                       | None \<Rightarrow> Inr b0))
               else Inr b0)"
  define a where "a = walk_allow_id env cls mv"
  have P: "write_pairs env (pairs_to_walk mv ps) (b @ c) ck a
             = reloc b (write_pairs env (pairs_to_walk mv ps) c ck a)" for c
    by (rule write_pairs_reloc_aux) (rule E, erule snd_in_pairs_to_walk)
  have I: "map_of ps key = Some idv \<Longrightarrow>
           write_element_allow_id env key idv (b @ c) ck a = reloc b (write_element_allow_id env key idv c ck a)"
    for key idv c a
    by (rule E) (erule map_of_snd_in)
  have F: "F (b @ c) = reloc b (F c)" for c
    by (simp add: F_def I split: option.splits)
  have W: "write_doc env c cls ps ck mv =
     (case F (c @ replicate 4 (CHR 0x00)) of Inl e \<Rightarrow> Inl e
      | Inr b1 \<Rightarrow> (case write_pairs env (pairs_to_walk mv ps) b1 ck a of Inl e \<Rightarrow> Inl e
           | Inr b2 \<Rightarrow> close_doc b2 (length c)))" for c
    unfolding write_doc.simps [of env c] F_def a_def
    by (simp add: buffer_save_space_def buffer_get_position_def)
  show ?thesis
    unfolding W [of "b @ c"] W [of c]
    by (simp add: F P close_doc_reloc reloc_case split: sum.splits)
qed


lemma write_value_reloc:
  "write_value env k v (b @ c) ck = reloc b (write_value env k v c ck)"
proof (induction v arbitrary: env k b c ck)
  case (VHash cls ps)
  have E: "write_element_allow_id env key v (b @ c) ck a = reloc b (write_element_allow_id env key v c ck a)"
    if "v \<in> snd ` set ps" for v env key b c ck a
  proof -
    from that obtain p where p: "p \<in> set ps" "v \<in> Basic_BNFs.snds p"
      by (auto simp: prod_set_defs)
    show ?thesis
      by (rule write_element_reloc_of_value) (rule VHash.IH [OF p])
  qed
  show ?case
    by (simp add: write_name_and_type_reloc write_doc_reloc_aux [OF E] reloc_case split: sum.splits)
next
  case (VArray vals)
  have E: "write_element_allow_id env key v (b @ c) ck a = reloc b (write_element_allow_id env key v c ck a)"
    if "v \<in> set vals" for v env key b c ck a
    by (rule write_element_reloc_of_value) (rule VArray.IH [OF that])
  have I: "write_items env vals i (b @ c) ck = reloc b (write_items env vals i c ck)" for i c
    by (rule write_items_reloc_aux) (rule E)
  show ?case
    by (simp add: write_name_and_type_reloc buffer_save_space_def buffer_get_position_def I
          close_object_reloc reloc_case split: sum.splits)
next
  case (VCode code cls ps)
  have E: "write_element_allow_id env key v (b @ c) ck a = reloc b (write_element_allow_id env key v c ck a)"
    if "v \<in> snd ` set ps" for v env key b c ck a
  proof -
    from that obtain p where p: "p \<in> set ps" "v \<in> Basic_BNFs.snds p"
      by (auto simp: prod_set_defs)
    show ?thesis
      by (rule write_element_reloc_of_value) (rule VCode.IH [OF p])
  qed
  show ?case
    by (simp add: write_name_and_type_reloc write_doc_reloc_aux [OF E] reloc_case
          buffer_save_space_def buffer_get_position_def buffer_write_def Let_def
          patch_length_reloc [of b "x @ y" "length x" for x y, simplified]
        split: sum.splits)
next
  case (VDBRef ns oid)
  have N: "write_element_allow_id env key ns (b @ c) ck a = reloc b (write_element_allow_id env key ns c ck a)"
    for env key b c ck a
    by (intro write_element_reloc_of_value VDBRef.IH)
  have O: "write_element_allow_id env key oid (b @ c) ck a = reloc b (write_element_allow_id env key oid c ck a)"
    for env key b c ck a
    by (intro write_element_reloc_of_value VDBRef.IH)
  show ?case
    by (simp add: write_name_and_type_reloc buffer_save_space_def buffer_get_position_def N O
          close_object_reloc reloc_case split: sum.splits)
qed (simp_all add: write_name_and_type_reloc write_utf8_reloc write_binary_reloc buffer_write_def
       Let_def reloc_case split: sum.splits option.splits)


subsection \<open>The layout of a document\<close>

lemma write_element_reloc:
  "write_element_allow_id env key v (b @ c) ck a = reloc b (write_element_allow_id env key v c ck a)"
  by (rule write_element_reloc_of_value) (rule write_value_reloc)

lemma write_pairs_reloc:
  "write_pairs env ps (b @ c) ck a = reloc b (write_pairs env ps c ck a)"
  by (rule write_pairs_reloc_aux) (rule write_element_reloc)

lemma write_items_reloc:
  "write_items env vals i (b @ c) ck = reloc b (write_items env vals i c ck)"
  by (rule write_items_reloc_aux) (rule write_element_reloc)

lemma write_doc_reloc:
  "write_doc env (b @ c) cls ps ck mv = reloc b (write_doc env c cls ps ck mv)"
  by (rule write_doc_reloc_aux) (rule write_element_reloc)

lemma segments_append:
  "segments env ck (es @ fs) =
     (case segments env ck es of
        Inl e \<Rightarrow> Inl e
      | Inr s \<Rightarrow> (case segments env ck fs of Inl e \<Rightarrow> Inl e | Inr r \<Rightarrow> Inr (s @ r)))"
  by (induction es) (auto split: sum.splits)

lemma write_pairs_segments:
  "write_pairs env ps buf ck a = reloc buf (segments env ck (map (\<lambda>(k, v). (k, v, a)) ps))"
proof (induction ps arbitrary: buf)
  case Nil
  then show ?case by simp
next
  case (Cons p ps)
  obtain k v where p: "p = (k, v)" by (cases p)
  have e: "write_element_allow_id env k v buf ck a = reloc buf (write_element_allow_id env k v [] ck a)"
    using write_element_reloc [of env k v buf "[]"] by simp
  show ?case
    by (simp add: p e Cons.IH split: sum.splits)
qed

lemma patch_length_saved:
  "patch_length (z1 # z2 # z3 # z4 # seg) 0 = Inr (le_bytes 4 (int (length seg) + 4) @ seg)"
  by (simp add: patch_length_def buffer_defs ac_simps)

lemma close_doc_saved:
  "close_doc (z1 # z2 # z3 # z4 # body) 0 = framed (Inr body)"
  by (simp add: close_doc_def framed_def buffer_defs Let_def ac_simps
        patch_length_saved [of _ _ _ _ "body @ [CHR 0x00]", simplified])

lemma close_object_saved:
  "close_object (z1 # z2 # z3 # z4 # body) 0 = Inr (le_bytes 4 (int (length body) + 5) @ body @ [CHR 0x00])"
  by (simp add: close_object_def buffer_defs ac_simps
        patch_length_saved [of _ _ _ _ "body @ [CHR 0x00]", simplified])

lemma write_doc_layout_Nil:
  "write_doc env [] cls ps ck mv = framed (segments env ck (emitted env cls mv ps))"
proof -
  let ?z = "replicate 4 (CHR 0x00)"
  have z: "?z = [CHR 0x00, CHR 0x00, CHR 0x00, CHR 0x00]" by (simp add: replicate_4)
  have e: "write_element_allow_id env k v ?z ck a = reloc ?z (write_element_allow_id env k v [] ck a)" for k v a
    using write_element_reloc [of env k v ?z "[]"] by simp
  have F: "(if mv then
                 (case map_of ps (KStr ''_id'') of
                    Some idv \<Rightarrow> write_element_allow_id env (KStr ''_id'') idv ?z ck 1
                  | None \<Rightarrow>
                      (case map_of ps (KSym ''_id'') of
                         Some idv \<Rightarrow> write_element_allow_id env (KSym ''_id'') idv ?z ck 1
                       | None \<Rightarrow> Inr ?z))
               else Inr ?z)
           = reloc ?z (segments env ck (if mv then map (\<lambda>(k, v). (k, v, 1)) (id_first ps) else []))"
    by (simp add: id_first_def e split: option.splits sum.splits)
  have W: "write_doc env [] cls ps ck mv =
     (case reloc ?z (segments env ck (if mv then map (\<lambda>(k, v). (k, v, 1)) (id_first ps) else [])) of
        Inl e \<Rightarrow> Inl e
      | Inr b1 \<Rightarrow> (case write_pairs env (pairs_to_walk mv ps) b1 ck (walk_allow_id env cls mv) of
             Inl e \<Rightarrow> Inl e
           | Inr b2 \<Rightarrow> close_doc b2 0))"
    unfolding write_doc.simps [of env "[]"] F [symmetric]
    by (simp add: buffer_save_space_def buffer_get_position_def)
  show ?thesis
  proof (cases "segments env ck (if mv then map (\<lambda>(k, v). (k, v, 1)) (id_first ps) else [])")
    case (Inl e)
    then show ?thesis
      unfolding W emitted_def segments_append by (simp add: framed_def)
  next
    case (Inr s)
    show ?thesis
    proof (cases "segments env ck (map (\<lambda>(k, v). (k, v, walk_allow_id env cls mv)) (pairs_to_walk mv ps))")
      case (Inl e)
      with Inr show ?thesis
        unfolding W emitted_def segments_append by (simp add: write_pairs_segments framed_def)
    next
      case r: (Inr r)
      with Inr show ?thesis
        unfolding W emitted_def segments_append
        by (simp add: write_pairs_segments z close_doc_saved)
    qed
  qed
qed

lemma write_doc_layout:
  "write_doc env buf cls ps ck mv = reloc buf (framed (segments env ck (emitted env cls mv ps)))"
  using write_doc_reloc [of env buf "[]" cls ps ck mv] by (simp add: write_doc_layout_Nil)


lemma framed_Inr:
  "framed r = Inr out \<Longrightarrow>
     \<exists>body. r = Inr body \<and> out = le_bytes 4 (int (length out)) @ body @ [CHR 0x00]
        \<and> length out = length body + 5 \<and> length out \<le> 4 * 1024 * 1024"
  by (cases r) (auto simp: framed_def ac_simps split: if_splits)

lemma framed_props:
  assumes "framed r = Inr out"
  shows "5 \<le> length out" and "length out \<le> 4 * 1024 * 1024"
    and "signed_of 32 (le_value (take 4 out)) = int (length out)" and "last out = CHR 0x00"
proof -
  from framed_Inr [OF assms] obtain body where
    o: "out = le_bytes 4 (int (length out)) @ body @ [CHR 0x00]"
    and l: "length out = length body + 5" and m: "length out \<le> 4 * 1024 * 1024"
    by blast
  show "5 \<le> length out" using l by simp
  show "length out \<le> 4 * 1024 * 1024" by (rule m)
  have "take 4 out = le_bytes 4 (int (length out))"
    by (subst o) simp
  then show "signed_of 32 (le_value (take 4 out)) = int (length out)"
    using signed_of_le_bytes [of 4 "int (length out)"] m by simp
  show "last out = CHR 0x00"
    by (subst o) simp
qed

lemma write_value_VArray_layout:
  "write_value env k (VArray vals) buf ck =
     (case write_name_and_type env buf k (CHR 0x04) of
        Inl e \<Rightarrow> Inl e
      | Inr b \<Rightarrow>
          (case write_items env vals 0 [] ck of
             Inl e \<Rightarrow> Inl e
           | Inr body \<Rightarrow> Inr (b @ le_bytes 4 (int (length body) + 5) @ body @ [CHR 0x00])))"
proof (cases "write_name_and_type env buf k (CHR 0x04)")
  case (Inl e)
  then show ?thesis by simp
next
  case (Inr b)
  have i: "write_items env vals 0 (b @ replicate 4 (CHR 0x00)) ck
             = reloc (b @ replicate 4 (CHR 0x00)) (write_items env vals 0 [] ck)"
    using write_items_reloc [of env vals 0 "b @ replicate 4 (CHR 0x00)" "[]" ck] by simp
  have c: "close_object (b @ replicate 4 (CHR 0x00) @ body) (length b)
             = Inr (b @ le_bytes 4 (int (length body) + 5) @ body @ [CHR 0x00])" for body
    using close_object_reloc [of b "replicate 4 (CHR 0x00) @ body" 0]
    by (simp add: replicate_4 close_object_saved)
  show ?thesis
    by (simp add: Inr buffer_save_space_def buffer_get_position_def i c split: sum.splits)
qed

lemma write_value_VDBRef_layout:
  "write_value env k (VDBRef ns oid) buf ck =
     (case write_name_and_type env buf k (CHR 0x03) of
        Inl e \<Rightarrow> Inl e
      | Inr b \<Rightarrow>
          (case write_element_allow_id env (KStr ''$ref'') ns [] False 0 of
             Inl e \<Rightarrow> Inl e
           | Inr s1 \<Rightarrow>
               (case write_element_allow_id env (KStr ''$id'') oid [] False 0 of
                  Inl e \<Rightarrow> Inl e
                | Inr s2 \<Rightarrow>
                    Inr (b @ le_bytes 4 (int (length (s1 @ s2)) + 5) @ (s1 @ s2) @ [CHR 0x00]))))"
proof (cases "write_name_and_type env buf k (CHR 0x03)")
  case (Inl e)
  then show ?thesis by simp
next
  case (Inr b)
  let ?z = "replicate 4 (CHR 0x00)"
  have r: "write_element_allow_id env key v (b @ ?z @ c) False 0
             = reloc (b @ ?z @ c) (write_element_allow_id env key v [] False 0)" for key v c
    using write_element_reloc [of env key v "b @ ?z @ c" "[]" False 0] by simp
  have c: "close_object (b @ ?z @ body) (length b)
             = Inr (b @ le_bytes 4 (int (length body) + 5) @ body @ [CHR 0x00])" for body
    using close_object_reloc [of b "?z @ body" 0]
    by (simp add: replicate_4 close_object_saved)
  show ?thesis
    using r [of _ _ "[]"]
    by (simp add: Inr buffer_save_space_def buffer_get_position_def r c split: sum.splits)
qed

lemma write_value_VCode_layout:
  "write_value env k (VCode code cls scope) buf ck =
     (case write_name_and_type env buf k (CHR 0x0F) of
        Inl e \<Rightarrow> Inl e
      | Inr b \<Rightarrow>
          (case write_doc env [] cls scope False False of
             Inl e \<Rightarrow> Inl e
           | Inr d \<Rightarrow>
               Inr (b @ le_bytes 4 (int (length code) + int (length d) + 9)
                      @ le_bytes 4 (int (length code) + 1) @ code @ [CHR 0x00] @ d)))"
proof (cases "write_name_and_type env buf k (CHR 0x0F)")
  case (Inl e)
  then show ?thesis by simp
next
  case (Inr b)
  let ?z = "replicate 4 (CHR 0x00)"
  let ?h = "le_bytes 4 (int (length code) + 1) @ code @ [CHR 0x00]"
  have r: "write_doc env (b @ ?z @ ?h) cls scope False False
             = reloc (b @ ?z @ ?h) (write_doc env [] cls scope False False)"
    using write_doc_reloc [of env "b @ ?z @ ?h" "[]"] by simp
  have p: "patch_length (b @ ?z @ ?h @ d) (length b)
             = Inr (b @ le_bytes 4 (int (length code) + int (length d) + 9) @ ?h @ d)" for d
    using patch_length_reloc [of b "?z @ ?h @ d" 0]
    by (simp add: replicate_4 patch_length_saved ac_simps)
  have w: "write_value env k (VCode code cls scope) buf ck =
             (case write_doc env (b @ ?z @ ?h) cls scope False False of
                Inl e \<Rightarrow> Inl e
              | Inr b5 \<Rightarrow> patch_length b5 (length b))"
    by (simp add: Inr buffer_save_space_def buffer_get_position_def buffer_write_def Let_def)
  show ?thesis
    unfolding w r using p
    by (cases "write_doc env [] cls scope False False") (simp_all add: Inr)
qed

lemma write_value_VHash_layout:
  "write_value env k (VHash cls ps) buf ck =
     (case write_name_and_type env buf k (CHR 0x03) of
        Inl e \<Rightarrow> Inl e
      | Inr b \<Rightarrow> reloc b (write_doc env [] cls ps ck False))"
  by (simp add: write_doc_layout split: sum.splits)

lemmas eval_defs = method_serialize_def buffer_defs pairs_to_walk_def has_key_def key_string_def c_str_def
  write_name_and_type_def write_utf8_def check_string_def char_of_def le_bytes_4 le_bytes_8 replicate_4
  close_object_def close_doc_def patch_length_def rb_hash_delete_def check_key_name_def walk_allow_id_def
  write_element_allow_id.simps write_doc.simps Let_def


subsection \<open>Length prefix and terminator\<close>

text \<open>
  C7. The output of a successful \<^verbatim>\<open>serialize\<close> is at least five bytes long, its first four
  bytes read as a little-endian int32 are its length, and its last byte is 0x00. The same
  holds of what every call of \<^verbatim>\<open>write_doc\<close> appends (an embedded hash, the scope of a
  Code); what the array branch and the DBRef branch append after the name ends in 0x00 too.
\<close>

theorem serialize_length_and_terminator:
  "(method_serialize env cls doc ck mv = Inr out \<longrightarrow>
      5 \<le> length out \<and> signed_of 32 (le_value (take 4 out)) = int (length out) \<and> last out = CHR 0x00)
   \<and> (write_doc env buf cls' ps ck' mv' = Inr buf' \<longrightarrow>
      (\<exists>d. buf' = buf @ d \<and> 5 \<le> length d
         \<and> signed_of 32 (le_value (take 4 d)) = int (length d) \<and> last d = CHR 0x00))
   \<and> (write_value env k (VArray vals) buf ck' = Inr buf' \<longrightarrow>
      (\<exists>b d. write_name_and_type env buf k (CHR 0x04) = Inr b \<and> buf' = b @ d
         \<and> 5 \<le> length d \<and> last d = CHR 0x00))
   \<and> (write_value env k (VDBRef ns oid) buf ck' = Inr buf' \<longrightarrow>
      (\<exists>b d. write_name_and_type env buf k (CHR 0x03) = Inr b \<and> buf' = b @ d
         \<and> 5 \<le> length d \<and> last d = CHR 0x00))"
proof (intro conjI impI)
  assume "method_serialize env cls doc ck mv = Inr out"
  then have f: "framed (segments env ck (emitted env cls mv doc)) = Inr out"
    by (simp add: method_serialize_def write_doc_layout_Nil)
  show "5 \<le> length out" "signed_of 32 (le_value (take 4 out)) = int (length out)" "last out = CHR 0x00"
    using framed_props [OF f] by simp_all
next
  assume "write_doc env buf cls' ps ck' mv' = Inr buf'"
  then obtain d where d: "framed (segments env ck' (emitted env cls' mv' ps)) = Inr d" "buf' = buf @ d"
    by (auto simp: write_doc_layout reloc_eq_Inr)
  show "\<exists>d. buf' = buf @ d \<and> 5 \<le> length d
         \<and> signed_of 32 (le_value (take 4 d)) = int (length d) \<and> last d = CHR 0x00"
    using framed_props [OF d(1)] d(2) by blast
next
  assume a: "write_value env k (VArray vals) buf ck' = Inr buf'"
  from a [unfolded write_value_VArray_layout]
  obtain b body where "write_name_and_type env buf k (CHR 0x04) = Inr b"
    "buf' = b @ (le_bytes 4 (int (length body) + 5) @ body @ [CHR 0x00])"
    by (auto split: sum.splits)
  then show "\<exists>b d. write_name_and_type env buf k (CHR 0x04) = Inr b \<and> buf' = b @ d
         \<and> 5 \<le> length d \<and> last d = CHR 0x00"
    by (intro exI [of _ b] exI [of _ "le_bytes 4 (int (length body) + 5) @ body @ [CHR 0x00]"]) simp
next
  assume a: "write_value env k (VDBRef ns oid) buf ck' = Inr buf'"
  from a [unfolded write_value_VDBRef_layout]
  obtain b body where "write_name_and_type env buf k (CHR 0x03) = Inr b"
    "buf' = b @ (le_bytes 4 (int (length body) + 5) @ body @ [CHR 0x00])"
    by (auto split: sum.splits)
  then show "\<exists>b d. write_name_and_type env buf k (CHR 0x03) = Inr b \<and> buf' = b @ d
         \<and> 5 \<le> length d \<and> last d = CHR 0x00"
    by (intro exI [of _ b] exI [of _ "le_bytes 4 (int (length body) + 5) @ body @ [CHR 0x00]"]) simp
qed

theorem serialize_length_and_terminator_witness:
  "method_serialize \<lparr>utf8_valid = (\<lambda>s. True), foreach_allow_id = 1\<rparr> OrderedHash
      [(KStr ''a'', VInt 1)] False False
     = Inr [CHR 0x0C, CHR 0x00, CHR 0x00, CHR 0x00, CHR 0x10, CHR ''a'', CHR 0x00,
            CHR 0x01, CHR 0x00, CHR 0x00, CHR 0x00, CHR 0x00]
   \<and> signed_of 32 (le_value [CHR 0x0C, CHR 0x00, CHR 0x00, CHR 0x00]) = 12
   \<and> last [CHR 0x0C, CHR 0x00, CHR 0x00, CHR 0x00, CHR 0x10, CHR ''a'', CHR 0x00,
            CHR 0x01, CHR 0x00, CHR 0x00, CHR 0x00, CHR 0x00] = CHR 0x00"
proof -
  let ?env = "\<lparr>utf8_valid = (\<lambda>s. True), foreach_allow_id = 1\<rparr>"
  let ?out = "[CHR 0x0C, CHR 0x00, CHR 0x00, CHR 0x00, CHR 0x10, CHR ''a'', CHR 0x00,
            CHR 0x01, CHR 0x00, CHR 0x00, CHR 0x00, CHR 0x00]"
  have h: "method_serialize ?env OrderedHash [(KStr ''a'', VInt 1)] False False = Inr ?out"
    by (simp add: eval_defs)
  from serialize_length_and_terminator [of ?env OrderedHash "[(KStr ''a'', VInt 1)]" False False ?out]
  have "signed_of 32 (le_value (take 4 ?out)) = int (length ?out) \<and> last ?out = CHR 0x00"
    using h by blast
  then show ?thesis using h by simp
qed


subsection \<open>The size limit\<close>

text \<open>
  C8. A successful \<^verbatim>\<open>serialize\<close> returns at most \<open>4 * 2^20\<close> bytes. When every element of
  the top-level document can be written and the encoded size (the four length bytes, the
  elements and the NUL byte) exceeds \<open>4 * 2^20\<close>, the call raises InvalidDocument; when it
  does not exceed it, the call succeeds with that many bytes.
\<close>

theorem serialize_size_limit:
  "(method_serialize env cls doc ck mv = Inr out \<longrightarrow> length out \<le> 4 * 2 ^ 20)
   \<and> (segments env ck (emitted env cls mv doc) = Inr body \<and> 4 * 2 ^ 20 < length body + 5 \<longrightarrow>
        method_serialize env cls doc ck mv = Inl InvalidDocument)
   \<and> (segments env ck (emitted env cls mv doc) = Inr body \<and> length body + 5 \<le> 4 * 2 ^ 20 \<longrightarrow>
        (\<exists>out. method_serialize env cls doc ck mv = Inr out \<and> length out = length body + 5))"
proof (intro conjI impI)
  assume "method_serialize env cls doc ck mv = Inr out"
  then have f: "framed (segments env ck (emitted env cls mv doc)) = Inr out"
    by (simp add: method_serialize_def write_doc_layout_Nil)
  show "length out \<le> 4 * 2 ^ 20"
    using framed_props(2) [OF f] by simp
next
  assume "segments env ck (emitted env cls mv doc) = Inr body \<and> 4 * 2 ^ 20 < length body + 5"
  then show "method_serialize env cls doc ck mv = Inl InvalidDocument"
    by (simp add: method_serialize_def write_doc_layout_Nil framed_def)
next
  assume "segments env ck (emitted env cls mv doc) = Inr body \<and> length body + 5 \<le> 4 * 2 ^ 20"
  then show "\<exists>out. method_serialize env cls doc ck mv = Inr out \<and> length out = length body + 5"
    by (simp add: method_serialize_def write_doc_layout_Nil framed_def)
qed

theorem serialize_size_limit_witness:
  "method_serialize \<lparr>utf8_valid = (\<lambda>s. True), foreach_allow_id = 1\<rparr> OrderedHash
      [(KStr ''s'', VString (replicate 4194304 (CHR ''a'')))] False False = Inl InvalidDocument
   \<and> length [CHR 0x0C, CHR 0x00, CHR 0x00, CHR 0x00, CHR 0x10, CHR ''a'', CHR 0x00,
            CHR 0x01, CHR 0x00, CHR 0x00, CHR 0x00, CHR 0x00] \<le> (4 * 2 ^ 20 :: nat)
   \<and> method_serialize \<lparr>utf8_valid = (\<lambda>s. True), foreach_allow_id = 1\<rparr> OrderedHash
      [(KStr ''a'', VInt 1)] False False
     = Inr [CHR 0x0C, CHR 0x00, CHR 0x00, CHR 0x00, CHR 0x10, CHR ''a'', CHR 0x00,
            CHR 0x01, CHR 0x00, CHR 0x00, CHR 0x00, CHR 0x00]"
proof -
  let ?env = "\<lparr>utf8_valid = (\<lambda>s. True), foreach_allow_id = 1\<rparr>"
  let ?big = "[(KStr ''s'', VString (replicate 4194304 (CHR ''a'')))]"
  let ?body = "[CHR 0x02, CHR ''s'', CHR 0x00] @ le_bytes 4 4194305 @ replicate 4194304 (CHR ''a'') @ [CHR 0x00]"
  let ?out = "[CHR 0x0C, CHR 0x00, CHR 0x00, CHR 0x00, CHR 0x10, CHR ''a'', CHR 0x00,
            CHR 0x01, CHR 0x00, CHR 0x00, CHR 0x00, CHR 0x00]"
  have s: "segments ?env False (emitted ?env OrderedHash False ?big) = Inr ?body"
    by (simp add: emitted_def pairs_to_walk_def has_key_def walk_allow_id_def
          write_element_allow_id.simps key_string_def c_str_def write_name_and_type_def
          write_utf8_def check_string_def buffer_write_def)
  have l: "(4 * 2 ^ 20 :: nat) < length ?body + 5"
    by simp
  have big: "method_serialize ?env OrderedHash ?big False False = Inl InvalidDocument"
    using serialize_size_limit [of ?env OrderedHash ?big False False _ ?body] s l by blast
  have h: "method_serialize ?env OrderedHash [(KStr ''a'', VInt 1)] False False = Inr ?out"
    by (simp add: eval_defs)
  have small: "length ?out \<le> (4 * 2 ^ 20 :: nat)"
    using serialize_size_limit [of ?env OrderedHash "[(KStr ''a'', VInt 1)]" False False ?out] h by blast
  show ?thesis using big small h by blast
qed


subsection \<open>The key check\<close>

lemma write_element_Inr_cases:
  assumes "write_element_allow_id env key v buf ck a = Inr b"
  obtains s where "key_string key = Some s" "a = 0" "c_str s = ''_id''" "b = buf"
  | s where "key_string key = Some s" "\<not> (a = 0 \<and> c_str s = ''_id'')"
      "ck \<longrightarrow> check_key_name s = None" "write_value env s v buf ck = Inr b"
  using assms
  by (auto simp: write_element_allow_id.simps split: option.splits if_splits)

lemma digit_char_cases:
  "d < 10 \<Longrightarrow> digit_char d \<in> set ''0123456789''"
  unfolding digit_char_def by (rule nth_mem) simp

lemma int2string_digits: "set (int2string i) \<subseteq> set ''0123456789''"
proof (induction i rule: int2string.induct)
  case (1 n)
  show ?case
  proof (cases "n < 10")
    case True
    then show ?thesis using digit_char_cases [of n] by (subst int2string.simps) simp
  next
    case False
    then show ?thesis using 1 digit_char_cases [of "n mod 10"] by (subst int2string.simps) simp
  qed
qed

lemma int2string_not_Nil: "int2string i \<noteq> []"
  by (subst int2string.simps) simp

lemma c_str_int2string: "c_str (int2string i) = int2string i"
proof -
  have "\<forall>c \<in> set (int2string i). c \<noteq> CHR 0x00"
    using int2string_digits [of i] by auto
  then show ?thesis by (simp add: c_str_def)
qed

lemma int2string_not_id: "c_str (int2string i) \<noteq> ''_id''"
proof
  assume "c_str (int2string i) = ''_id''"
  then have "CHR ''_'' \<in> set (int2string i)" by (simp add: c_str_int2string)
  then show False using int2string_digits [of i] by auto
qed

lemma check_key_name_int2string: "check_key_name (int2string i) = None"
proof -
  have "int2string i ! 0 \<in> set (int2string i)"
    using int2string_not_Nil by simp
  then show ?thesis
    using int2string_digits [of i] by (auto simp: check_key_name_def list_ex_iff)
qed

lemma pairs_pass_aux:
  assumes "\<And>v env k buf b. v \<in> snd ` set ps \<Longrightarrow> write_value env k v buf True = Inr b \<Longrightarrow> keys_pass env v"
    and "write_pairs env ps buf True a = Inr b"
  shows "pairs_pass env a ps"
  using assms
proof (induction ps arbitrary: buf)
  case Nil
  then show ?case by simp
next
  case (Cons p ps)
  obtain k v where p: "p = (k, v)" by (cases p)
  from Cons.prems(2) obtain b1 where
    e: "write_element_allow_id env k v buf True a = Inr b1" and r: "write_pairs env ps b1 True a = Inr b"
    by (auto simp: p split: sum.splits)
  have "pairs_pass env a ps"
    by (rule Cons.IH [OF _ r]) (rule Cons.prems(1), auto)
  moreover have "case key_string k of None \<Rightarrow> False
       | Some s \<Rightarrow> (a = 0 \<and> c_str s = ''_id'') \<or> (check_key_name s = None \<and> keys_pass env v)"
    using e
  proof (cases rule: write_element_Inr_cases)
    case (1 s)
    then show ?thesis by simp
  next
    case (2 s)
    then show ?thesis using Cons.prems(1) [of v env s buf b1] p by simp
  qed
  ultimately show ?case by (simp add: p)
qed

lemma items_pass_aux:
  assumes "\<And>v env k buf b. v \<in> set vals \<Longrightarrow> write_value env k v buf True = Inr b \<Longrightarrow> keys_pass env v"
    and "write_items env vals i buf True = Inr b"
  shows "items_pass env vals"
  using assms
proof (induction vals arbitrary: buf i)
  case Nil
  then show ?case by simp
next
  case (Cons v vals)
  from Cons.prems(2) obtain b1 where
    e: "write_element_allow_id env (KStr (int2string i)) v buf True 0 = Inr b1"
    and r: "write_items env vals (Suc i) b1 True = Inr b"
    by (auto split: sum.splits)
  have "items_pass env vals"
    by (rule Cons.IH [OF _ r]) (rule Cons.prems(1), auto)
  moreover have "keys_pass env v"
    using e
  proof (cases rule: write_element_Inr_cases)
    case (1 s)
    have "c_str (int2string i) \<noteq> ''_id''" by (rule int2string_not_id)
    with 1 show ?thesis by (simp add: key_string_def)
  next
    case (2 s)
    then show ?thesis using Cons.prems(1) [of v env s buf b1] by simp
  qed
  ultimately show ?case by simp
qed

lemma write_value_keys_pass:
  "write_value env k v buf True = Inr b \<Longrightarrow> keys_pass env v"
proof (induction v arbitrary: env k buf b)
  case (VHash cls ps)
  from VHash.prems obtain b0 where w: "write_doc env b0 cls ps True False = Inr b"
    by (auto split: sum.splits)
  from w obtain b1 b2 where
    p: "write_pairs env (pairs_to_walk False ps) b1 True (walk_allow_id env cls False) = Inr b2"
    by (auto simp: write_doc.simps [of env b0] buffer_save_space_def split: sum.splits)
  have "pairs_pass env (walk_allow_id env cls False) (pairs_to_walk False ps)"
  proof (rule pairs_pass_aux [OF _ p])
    fix v env k buf b
    assume m: "v \<in> snd ` set (pairs_to_walk False ps)" and wv: "write_value env k v buf True = Inr b"
    from m have "v \<in> snd ` set ps" by (rule snd_in_pairs_to_walk)
    then obtain q where q: "q \<in> set ps" "v \<in> Basic_BNFs.snds q"
      by (auto simp: prod_set_defs)
    show "keys_pass env v" by (rule VHash.IH [OF q wv])
  qed
  then show ?case by simp
next
  case (VArray vals)
  from VArray.prems obtain b1 b2 where i: "write_items env vals 0 b1 True = Inr b2"
    by (auto simp: buffer_save_space_def split: sum.splits)
  have "items_pass env vals"
    by (rule items_pass_aux [OF _ i]) (rule VArray.IH)
  then show ?case by simp
qed simp_all


lemma check_key_name_None:
  "check_key_name s = None \<longleftrightarrow> \<not> (s \<noteq> [] \<and> s ! 0 = CHR ''$'') \<and> CHR ''.'' \<notin> set s"
  by (auto simp: check_key_name_def list_ex_iff)

lemma segments_keys_pass:
  assumes "segments env True es = Inr body" and "(k, v, a) \<in> set es"
  shows "case key_string k of None \<Rightarrow> False
       | Some s \<Rightarrow> (a = 0 \<and> c_str s = ''_id'') \<or> (check_key_name s = None \<and> keys_pass env v)"
  using assms
proof (induction es arbitrary: body)
  case Nil
  then show ?case by simp
next
  case (Cons e es)
  obtain k' v' a' where e: "e = (k', v', a')" by (cases e)
  from Cons.prems(1) obtain s r where
    w: "write_element_allow_id env k' v' [] True a' = Inr s" and r: "segments env True es = Inr r"
    by (auto simp: e split: sum.splits)
  show ?case
  proof (cases "(k, v, a) = e")
    case True
    with e have [simp]: "k' = k" "v' = v" "a' = a" by simp_all
    from w show ?thesis
    proof (cases rule: write_element_Inr_cases)
      case (1 s)
      then show ?thesis by simp
    next
      case (2 s)
      then show ?thesis using write_value_keys_pass [of env s v "[]"] by simp
    qed
  next
    case False
    with Cons.prems(2) have "(k, v, a) \<in> set es" by simp
    then show ?thesis by (rule Cons.IH [OF r])
  qed
qed

lemma segments_pairs_pass:
  "segments env True (map (\<lambda>(k, v). (k, v, a)) ps) = Inr body \<Longrightarrow> pairs_pass env a ps"
proof (induction ps arbitrary: body)
  case Nil
  then show ?case by simp
next
  case (Cons p ps)
  obtain k v where p: "p = (k, v)" by (cases p)
  from Cons.prems obtain r where r: "segments env True (map (\<lambda>(k, v). (k, v, a)) ps) = Inr r"
    by (auto simp: p split: sum.splits)
  have "(k, v, a) \<in> set (map (\<lambda>(k, v). (k, v, a)) (p # ps))"
    by (simp add: p)
  from segments_keys_pass [OF Cons.prems this] Cons.IH [OF r]
  show ?case by (simp add: p)
qed

lemma write_name_and_type_Inr:
  "write_name_and_type env buf k t = Inr b \<Longrightarrow> b = buf @ t # k @ [CHR 0x00] \<and> CHR 0x00 \<notin> set k"
  by (auto simp: write_name_and_type_def write_utf8_def check_string_def buffer_write_def
      split: result_t.splits if_splits)

lemma write_binary_head:
  "write_binary env k st d [] = Inr out \<Longrightarrow>
     \<exists>rest. out = CHR 0x05 # k @ CHR 0x00 # rest \<and> CHR 0x00 \<notin> set k"
  by (auto simp: write_binary_def Let_def buffer_write_def dest!: write_name_and_type_Inr
      split: sum.splits if_splits)

lemma write_value_head:
  assumes "write_value env k v [] ck = Inr out"
  shows "\<exists>t rest. out = t # k @ CHR 0x00 # rest \<and> CHR 0x00 \<notin> set k \<and> t \<noteq> CHR ''$''"
proof (cases v)
  case (VHash cls ps)
  with assms show ?thesis
    by (auto simp: write_value_VHash_layout reloc_eq_Inr dest!: write_name_and_type_Inr
        simp del: write_value.simps split: sum.splits)
next
  case (VArray vals)
  with assms show ?thesis
    by (auto simp: write_value_VArray_layout dest!: write_name_and_type_Inr
        simp del: write_value.simps split: sum.splits)
next
  case (VCode code cls scope)
  with assms show ?thesis
    by (auto simp: write_value_VCode_layout dest!: write_name_and_type_Inr
        simp del: write_value.simps split: sum.splits)
next
  case (VDBRef ns oid)
  with assms show ?thesis
    by (auto simp: write_value_VDBRef_layout dest!: write_name_and_type_Inr
        simp del: write_value.simps split: sum.splits)
next
  case (VBinary st d)
  with assms show ?thesis
    by (auto dest!: write_binary_head)
next
  case (VByteBuffer d)
  with assms show ?thesis
    by (auto dest!: write_binary_head)
next
  case (VRegexp pat fl ex)
  with assms show ?thesis
    by (auto simp: buffer_write_def write_utf8_def Let_def dest!: write_name_and_type_Inr
        split: sum.splits result_t.splits option.splits)
qed (use assms in \<open>auto simp: buffer_write_def write_utf8_def Let_def dest!: write_name_and_type_Inr
        split: sum.splits if_splits result_t.splits\<close>)

lemma dbref_keys_written:
  assumes "write_value env k (VDBRef ns oid) buf ck = Inr out"
  shows "\<exists>b len t1 r1 t2 r2.
           write_name_and_type env buf k (CHR 0x03) = Inr b \<and> length len = 4
           \<and> out = b @ len @ (t1 # ''$ref'' @ CHR 0x00 # r1) @ (t2 # ''$id'' @ CHR 0x00 # r2) @ [CHR 0x00]"
proof -
  have el: "write_element_allow_id env (KStr key) v [] False 0 = write_value env key v [] False"
    if "key = ''$ref'' \<or> key = ''$id''" for key v
    using that by (auto simp: write_element_allow_id.simps key_string_def c_str_def)
  from assms obtain b s1 s2 where b: "write_name_and_type env buf k (CHR 0x03) = Inr b"
    and w1: "write_value env ''$ref'' ns [] False = Inr s1"
    and w2: "write_value env ''$id'' oid [] False = Inr s2"
    and o: "out = b @ le_bytes 4 (int (length (s1 @ s2)) + 5) @ (s1 @ s2) @ [CHR 0x00]"
    by (auto simp: write_value_VDBRef_layout el simp del: write_value.simps split: sum.splits)
  from write_value_head [OF w1] obtain t1 r1 where s1: "s1 = t1 # ''$ref'' @ CHR 0x00 # r1" by blast
  from write_value_head [OF w2] obtain t2 r2 where s2: "s2 = t2 # ''$id'' @ CHR 0x00 # r2" by blast
  have "length (le_bytes 4 (int (length (s1 @ s2)) + 5)) = 4" by simp
  with b o s1 s2 show ?thesis
    by (metis append.assoc)
qed

text \<open>
  C3, as the code has it. With \<^verbatim>\<open>check_keys\<close> true, a successful \<^verbatim>\<open>serialize\<close> has
  checked every key that it wrote of the top-level document and of the hashes nested in it
  through hashes and arrays: each of them neither begins with \<open>$\<close> nor contains \<open>.\<close>; and
  the element writer, called with such a key that is not skipped, raises InvalidName. With
  \<^verbatim>\<open>check_keys\<close> false the element writer goes from the key to the value and checks nothing.
  The scope of a Code is written by \<^verbatim>\<open>write_doc\<close> with \<^verbatim>\<open>check_keys\<close> false and the two elements
  of a DBRef by the element writer with \<^verbatim>\<open>check_keys\<close> false, whatever \<^verbatim>\<open>check_keys\<close> is for
  the value; a DBRef that is written holds the keys \<open>$ref\<close> and \<open>$id\<close>, which the check
  refuses.
\<close>

theorem check_keys_reach:
  "(method_serialize env cls doc True mv = Inr out \<longrightarrow> doc_keys_pass env cls mv doc)
   \<and> (key_string key = Some s \<and> \<not> (a = 0 \<and> c_str s = ''_id'') \<and> check_key_name s \<noteq> None \<longrightarrow>
        write_element_allow_id env key v buf True a = Inl InvalidName)
   \<and> (check_key_name s = None \<longleftrightarrow> \<not> (s \<noteq> [] \<and> s ! 0 = CHR ''$'') \<and> CHR ''.'' \<notin> set s)
   \<and> write_element_allow_id env key v buf False a
       = (case key_string key of
            None \<Rightarrow> Inl TypeError_key
          | Some k \<Rightarrow> if a = 0 \<and> c_str k = ''_id'' then Inr buf else write_value env k v buf False)
   \<and> write_value env k (VCode code hcls scope) buf ck
       = (case write_name_and_type env buf k (CHR 0x0F) of
            Inl e \<Rightarrow> Inl e
          | Inr b \<Rightarrow>
              (case write_doc env [] hcls scope False False of
                 Inl e \<Rightarrow> Inl e
               | Inr d \<Rightarrow>
                   Inr (b @ le_bytes 4 (int (length code) + int (length d) + 9)
                          @ le_bytes 4 (int (length code) + 1) @ code @ [CHR 0x00] @ d)))
   \<and> write_value env k (VDBRef ns oid) buf ck
       = (case write_name_and_type env buf k (CHR 0x03) of
            Inl e \<Rightarrow> Inl e
          | Inr b \<Rightarrow>
              (case write_element_allow_id env (KStr ''$ref'') ns [] False 0 of
                 Inl e \<Rightarrow> Inl e
               | Inr s1 \<Rightarrow>
                   (case write_element_allow_id env (KStr ''$id'') oid [] False 0 of
                      Inl e \<Rightarrow> Inl e
                    | Inr s2 \<Rightarrow>
                        Inr (b @ le_bytes 4 (int (length (s1 @ s2)) + 5) @ (s1 @ s2) @ [CHR 0x00]))))
   \<and> (write_value env k (VDBRef ns oid) buf ck = Inr out' \<longrightarrow>
        (\<exists>b len t1 r1 t2 r2.
           write_name_and_type env buf k (CHR 0x03) = Inr b \<and> length len = 4
           \<and> out' = b @ len @ (t1 # ''$ref'' @ CHR 0x00 # r1) @ (t2 # ''$id'' @ CHR 0x00 # r2) @ [CHR 0x00]))
   \<and> check_key_name ''$ref'' = Some InvalidName \<and> check_key_name ''$id'' = Some InvalidName"
proof (intro conjI impI)
  assume "method_serialize env cls doc True mv = Inr out"
  then have "framed (segments env True (emitted env cls mv doc)) = Inr out"
    by (simp add: method_serialize_def write_doc_layout_Nil)
  then obtain body where b: "segments env True (emitted env cls mv doc) = Inr body"
    using framed_Inr by blast
  from b obtain s1 s2 where
    s1: "segments env True (if mv then map (\<lambda>(k, v). (k, v, 1)) (id_first doc) else []) = Inr s1"
    and s2: "segments env True (map (\<lambda>(k, v). (k, v, walk_allow_id env cls mv)) (pairs_to_walk mv doc)) = Inr s2"
    by (auto simp: emitted_def segments_append split: sum.splits)
  have "pairs_pass env (walk_allow_id env cls mv) (pairs_to_walk mv doc)"
    by (rule segments_pairs_pass [OF s2])
  moreover have "list_all (\<lambda>p. keys_pass env (snd p)) (if mv then id_first doc else [])"
  proof (cases mv)
    case True
    have "keys_pass env v" if "(k, v) \<in> set (id_first doc)" for k v
    proof -
      from that have k: "key_string k = Some ''_id''"
        by (auto simp: id_first_def key_string_def c_str_def split: option.splits)
      from that True have "(k, v, 1) \<in> set (if mv then map (\<lambda>(k, v). (k, v, 1)) (id_first doc) else [])"
        by force
      from segments_keys_pass [OF s1 this] k show ?thesis by simp
    qed
    then show ?thesis by (auto simp: True list_all_iff)
  next
    case False
    then show ?thesis by simp
  qed
  ultimately show "doc_keys_pass env cls mv doc"
    by (simp add: doc_keys_pass_def)
next
  assume "key_string key = Some s \<and> \<not> (a = 0 \<and> c_str s = ''_id'') \<and> check_key_name s \<noteq> None"
  then show "write_element_allow_id env key v buf True a = Inl InvalidName"
    by (auto simp: write_element_allow_id.simps check_key_name_def split: if_splits)
next
  show "check_key_name s = None \<longleftrightarrow> \<not> (s \<noteq> [] \<and> s ! 0 = CHR ''$'') \<and> CHR ''.'' \<notin> set s"
    by (rule check_key_name_None)
next
  show "write_element_allow_id env key v buf False a
       = (case key_string key of
            None \<Rightarrow> Inl TypeError_key
          | Some k \<Rightarrow> if a = 0 \<and> c_str k = ''_id'' then Inr buf else write_value env k v buf False)"
    by (simp add: write_element_allow_id.simps split: option.splits)
next
  show "write_value env k (VCode code hcls scope) buf ck
       = (case write_name_and_type env buf k (CHR 0x0F) of
            Inl e \<Rightarrow> Inl e
          | Inr b \<Rightarrow>
              (case write_doc env [] hcls scope False False of
                 Inl e \<Rightarrow> Inl e
               | Inr d \<Rightarrow>
                   Inr (b @ le_bytes 4 (int (length code) + int (length d) + 9)
                          @ le_bytes 4 (int (length code) + 1) @ code @ [CHR 0x00] @ d)))"
    by (rule write_value_VCode_layout)
next
  show "write_value env k (VDBRef ns oid) buf ck
       = (case write_name_and_type env buf k (CHR 0x03) of
            Inl e \<Rightarrow> Inl e
          | Inr b \<Rightarrow>
              (case write_element_allow_id env (KStr ''$ref'') ns [] False 0 of
                 Inl e \<Rightarrow> Inl e
               | Inr s1 \<Rightarrow>
                   (case write_element_allow_id env (KStr ''$id'') oid [] False 0 of
                      Inl e \<Rightarrow> Inl e
                    | Inr s2 \<Rightarrow>
                        Inr (b @ le_bytes 4 (int (length (s1 @ s2)) + 5) @ (s1 @ s2) @ [CHR 0x00]))))"
    by (rule write_value_VDBRef_layout)
next
  assume "write_value env k (VDBRef ns oid) buf ck = Inr out'"
  then show "\<exists>b len t1 r1 t2 r2.
           write_name_and_type env buf k (CHR 0x03) = Inr b \<and> length len = 4
           \<and> out' = b @ len @ (t1 # ''$ref'' @ CHR 0x00 # r1) @ (t2 # ''$id'' @ CHR 0x00 # r2) @ [CHR 0x00]"
    by (rule dbref_keys_written)
next
  show "check_key_name ''$ref'' = Some InvalidName"
    by (simp add: check_key_name_def)
  show "check_key_name ''$id'' = Some InvalidName"
    by (simp add: check_key_name_def)
qed

theorem check_keys_reach_witness:
  "method_serialize \<lparr>utf8_valid = (\<lambda>s. True), foreach_allow_id = 1\<rparr> OrderedHash
      [(KStr ''a'', VHash OrderedHash [(KStr ''b'', VArray [VInt 1])])] True False
     = Inr [CHR 0x1C, CHR 0x00, CHR 0x00, CHR 0x00, CHR 0x03, CHR ''a'', CHR 0x00,
            CHR 0x14, CHR 0x00, CHR 0x00, CHR 0x00, CHR 0x04, CHR ''b'', CHR 0x00,
            CHR 0x0C, CHR 0x00, CHR 0x00, CHR 0x00, CHR 0x10, CHR ''0'', CHR 0x00,
            CHR 0x01, CHR 0x00, CHR 0x00, CHR 0x00, CHR 0x00, CHR 0x00, CHR 0x00]
   \<and> doc_keys_pass \<lparr>utf8_valid = (\<lambda>s. True), foreach_allow_id = 1\<rparr> OrderedHash False
      [(KStr ''a'', VHash OrderedHash [(KStr ''b'', VArray [VInt 1])])]
   \<and> write_element_allow_id \<lparr>utf8_valid = (\<lambda>s. True), foreach_allow_id = 1\<rparr>
        (KStr ''$bad'') (VInt 1) [] True 1 = Inl InvalidName
   \<and> write_value \<lparr>utf8_valid = (\<lambda>s. True), foreach_allow_id = 1\<rparr> ''r''
        (VDBRef (VString ''c'') (VInt 1)) [] True
       = Inr [CHR 0x03, CHR ''r'', CHR 0x00, CHR 0x1A, CHR 0x00, CHR 0x00, CHR 0x00,
              CHR 0x02, CHR ''$'', CHR ''r'', CHR ''e'', CHR ''f'', CHR 0x00,
              CHR 0x02, CHR 0x00, CHR 0x00, CHR 0x00, CHR ''c'', CHR 0x00,
              CHR 0x10, CHR ''$'', CHR ''i'', CHR ''d'', CHR 0x00, CHR 0x01, CHR 0x00, CHR 0x00, CHR 0x00,
              CHR 0x00]
   \<and> (\<exists>b len t1 r1 t2 r2.
         write_name_and_type \<lparr>utf8_valid = (\<lambda>s. True), foreach_allow_id = 1\<rparr> [] ''r'' (CHR 0x03) = Inr b
         \<and> length len = 4
         \<and> [CHR 0x03, CHR ''r'', CHR 0x00, CHR 0x1A, CHR 0x00, CHR 0x00, CHR 0x00,
              CHR 0x02, CHR ''$'', CHR ''r'', CHR ''e'', CHR ''f'', CHR 0x00,
              CHR 0x02, CHR 0x00, CHR 0x00, CHR 0x00, CHR ''c'', CHR 0x00,
              CHR 0x10, CHR ''$'', CHR ''i'', CHR ''d'', CHR 0x00, CHR 0x01, CHR 0x00, CHR 0x00, CHR 0x00,
              CHR 0x00]
             = b @ len @ (t1 # ''$ref'' @ CHR 0x00 # r1) @ (t2 # ''$id'' @ CHR 0x00 # r2) @ [CHR 0x00])"
proof -
  let ?env = "\<lparr>utf8_valid = (\<lambda>s. True), foreach_allow_id = 1\<rparr>"
  let ?doc = "[(KStr ''a'', VHash OrderedHash [(KStr ''b'', VArray [VInt 1])])]"
  let ?out = "[CHR 0x03, CHR ''r'', CHR 0x00, CHR 0x1A, CHR 0x00, CHR 0x00, CHR 0x00,
              CHR 0x02, CHR ''$'', CHR ''r'', CHR ''e'', CHR ''f'', CHR 0x00,
              CHR 0x02, CHR 0x00, CHR 0x00, CHR 0x00, CHR ''c'', CHR 0x00,
              CHR 0x10, CHR ''$'', CHR ''i'', CHR ''d'', CHR 0x00, CHR 0x01, CHR 0x00, CHR 0x00, CHR 0x00,
              CHR 0x00]"
  have h: "method_serialize ?env OrderedHash ?doc True False
     = Inr [CHR 0x1C, CHR 0x00, CHR 0x00, CHR 0x00, CHR 0x03, CHR ''a'', CHR 0x00,
            CHR 0x14, CHR 0x00, CHR 0x00, CHR 0x00, CHR 0x04, CHR ''b'', CHR 0x00,
            CHR 0x0C, CHR 0x00, CHR 0x00, CHR 0x00, CHR 0x10, CHR ''0'', CHR 0x00,
            CHR 0x01, CHR 0x00, CHR 0x00, CHR 0x00, CHR 0x00, CHR 0x00, CHR 0x00]"
    by (simp add: eval_defs int2string.simps digit_char_def)
  have k: "key_string (KStr ''$bad'') = Some ''$bad'' \<and> \<not> ((1::int) = 0 \<and> c_str ''$bad'' = ''_id'')
             \<and> check_key_name ''$bad'' \<noteq> None"
    by (simp add: key_string_def check_key_name_def)
  have d: "write_value ?env ''r'' (VDBRef (VString ''c'') (VInt 1)) [] True = Inr ?out"
    by (simp add: eval_defs)
  note t = check_keys_reach [where env = ?env and cls = OrderedHash and doc = ?doc and mv = False
      and key = "KStr ''$bad''" and s = "''$bad''" and a = 1 and v = "VInt 1" and buf = "[]"
      and k = "''r''" and ns = "VString ''c''" and oid = "VInt 1" and ck = True and out' = ?out]
  from t h have 1: "doc_keys_pass ?env OrderedHash False ?doc" by blast
  from t k have 2: "write_element_allow_id ?env (KStr ''$bad'') (VInt 1) [] True 1 = Inl InvalidName" by blast
  from t d have 3: "\<exists>b len t1 r1 t2 r2.
         write_name_and_type ?env [] ''r'' (CHR 0x03) = Inr b \<and> length len = 4
         \<and> ?out = b @ len @ (t1 # ''$ref'' @ CHR 0x00 # r1) @ (t2 # ''$id'' @ CHR 0x00 # r2) @ [CHR 0x00]"
    by blast
  from h 1 2 d 3 show ?thesis by blast
qed

text \<open>
  C3 as stated fails: with \<^verbatim>\<open>check_keys\<close> true, a key \<open>$bad\<close> in the scope of a Code is
  written to the output and nothing is raised.
\<close>

theorem code_scope_keys_unchecked:
  "method_serialize \<lparr>utf8_valid = (\<lambda>s. True), foreach_allow_id = 1\<rparr> OrderedHash
      [(KStr ''c'', VCode ''x'' OrderedHash [(KStr ''$bad'', VInt 1)])] True False
     = Inr [CHR 0x21, CHR 0x00, CHR 0x00, CHR 0x00, CHR 0x0F, CHR ''c'', CHR 0x00,
            CHR 0x19, CHR 0x00, CHR 0x00, CHR 0x00, CHR 0x02, CHR 0x00, CHR 0x00, CHR 0x00,
            CHR ''x'', CHR 0x00, CHR 0x0F, CHR 0x00, CHR 0x00, CHR 0x00,
            CHR 0x10, CHR ''$'', CHR ''b'', CHR ''a'', CHR ''d'', CHR 0x00,
            CHR 0x01, CHR 0x00, CHR 0x00, CHR 0x00, CHR 0x00, CHR 0x00]"
  by (simp add: eval_defs)


subsection \<open>Regexp flags\<close>

text \<open>
  C4 fails on the code: \<^verbatim>\<open>qsort\<close> starts at the position taken after the letters
  \<open>i\<close>, \<open>m\<close>, \<open>x\<close> were written, so only the extra letters are sorted. A Regexp with the
  MULTILINE bit and the extra letter \<open>l\<close> is written with the flag bytes \<open>ml\<close>, which
  decrease.
\<close>

theorem regexp_flags_not_sorted:
  "write_value \<lparr>utf8_valid = (\<lambda>s. True), foreach_allow_id = 1\<rparr> ''r''
      (VRegexp ''p'' MULTILINE (Some ''l'')) [] False
     = Inr [CHR 0x0B, CHR ''r'', CHR 0x00, CHR ''p'', CHR 0x00, CHR ''m'', CHR ''l'', CHR 0x00]
   \<and> \<not> sorted (map (of_char :: char \<Rightarrow> nat) ''ml'')"
  by (simp add: write_name_and_type_def write_utf8_def check_string_def buffer_write_def
        regexp_flag_bytes_def IGNORECASE_def MULTILINE_def EXTENDED_def schar_def signed_of_def)


subsection \<open>The order of the elements\<close>

lemmas layout_eval = framed_def id_first_def write_element_allow_id.simps key_string_def c_str_def
  check_key_name_def write_name_and_type_def write_utf8_def check_string_def buffer_write_def
  le_bytes_4 le_bytes_8 char_of_def pairs_to_walk_def has_key_def rb_hash_delete_def

text \<open>
  C6 fails on the code for a hash that is not an OrderedHash. With \<^verbatim>\<open>move_id\<close> true the output
  is, for any hash, the \<^verbatim>\<open>_id\<close> pair (of the String key if there is one, else of the Symbol
  key) and then the pairs of the traversal; with \<^verbatim>\<open>move_id\<close> false it is the pairs of the
  traversal, which are all the pairs unless the hash has both the String and the Symbol key
  \<^verbatim>\<open>_id\<close>; a nested hash is written as with \<^verbatim>\<open>move_id\<close> false. A pair of the traversal whose key
  reads \<^verbatim>\<open>_id\<close> is skipped when \<^verbatim>\<open>allow_id\<close> is 0 and written otherwise. For an OrderedHash
  \<^verbatim>\<open>allow_id\<close> is 0 when \<^verbatim>\<open>move_id\<close> is true and 1 when it is false. For any other hash it is
  what \<^verbatim>\<open>write_element_allow_id\<close>, a function of four parameters that \<^verbatim>\<open>rb_hash_foreach\<close> calls
  with three arguments, finds as its fourth, whatever \<^verbatim>\<open>move_id\<close> is: when that is 0 and
  \<^verbatim>\<open>move_id\<close> is false the \<^verbatim>\<open>_id\<close> pair is not written at all, and when it is not 0 and
  \<^verbatim>\<open>move_id\<close> is true the \<^verbatim>\<open>_id\<close> pair is written twice.
\<close>

theorem traversal_allow_id:
  "method_serialize env cls doc ck True
      = framed (segments env ck (map (\<lambda>(k, v). (k, v, 1)) (id_first doc)
                                  @ map (\<lambda>(k, v). (k, v, walk_allow_id env cls True)) doc))
   \<and> method_serialize env cls doc ck False
      = framed (segments env ck (map (\<lambda>(k, v). (k, v, walk_allow_id env cls False)) (pairs_to_walk False doc)))
   \<and> write_value env k (VHash cls ps) buf ck
      = (case write_name_and_type env buf k (CHR 0x03) of
           Inl e \<Rightarrow> Inl e
         | Inr b \<Rightarrow> reloc b (framed (segments env ck
                       (map (\<lambda>(k, v). (k, v, walk_allow_id env cls False)) (pairs_to_walk False ps)))))
   \<and> walk_allow_id env OrderedHash mv = (if mv then 0 else 1)
   \<and> walk_allow_id env PlainHash mv = foreach_allow_id env
   \<and> (key_string key = Some s \<and> c_str s = ''_id'' \<longrightarrow>
        write_element_allow_id env key v buf ck 0 = Inr buf)
   \<and> (a \<noteq> 0 \<longrightarrow> write_element_allow_id env key v buf ck a = write_element_allow_id env key v buf ck 1)
   \<and> (\<not> (has_key doc (KStr ''_id'') \<and> has_key doc (KSym ''_id'')) \<longrightarrow> pairs_to_walk False doc = doc)
   \<and> (has_key doc (KStr ''_id'') \<and> has_key doc (KSym ''_id'') \<longrightarrow>
        pairs_to_walk False doc = rb_hash_delete doc (KStr ''_id''))
   \<and> (utf8_valid env ''_id'' \<and> foreach_allow_id env = 0 \<longrightarrow>
        method_serialize env PlainHash [(KStr ''_id'', VInt 1)] ck False
          = Inr [CHR 0x05, CHR 0x00, CHR 0x00, CHR 0x00, CHR 0x00])
   \<and> (utf8_valid env ''_id'' \<and> foreach_allow_id env \<noteq> 0 \<longrightarrow>
        method_serialize env PlainHash [(KStr ''_id'', VInt 1)] ck True
          = Inr [CHR 0x17, CHR 0x00, CHR 0x00, CHR 0x00,
                 CHR 0x10, CHR ''_'', CHR ''i'', CHR ''d'', CHR 0x00, CHR 0x01, CHR 0x00, CHR 0x00, CHR 0x00,
                 CHR 0x10, CHR ''_'', CHR ''i'', CHR ''d'', CHR 0x00, CHR 0x01, CHR 0x00, CHR 0x00, CHR 0x00,
                 CHR 0x00])"
proof (intro conjI impI)
  show "method_serialize env cls doc ck True
      = framed (segments env ck (map (\<lambda>(k, v). (k, v, 1)) (id_first doc)
                                  @ map (\<lambda>(k, v). (k, v, walk_allow_id env cls True)) doc))"
    by (simp add: method_serialize_def write_doc_layout_Nil emitted_def pairs_to_walk_def)
  show "method_serialize env cls doc ck False
      = framed (segments env ck (map (\<lambda>(k, v). (k, v, walk_allow_id env cls False)) (pairs_to_walk False doc)))"
    by (simp add: method_serialize_def write_doc_layout_Nil emitted_def)
  show "write_value env k (VHash cls ps) buf ck
      = (case write_name_and_type env buf k (CHR 0x03) of
           Inl e \<Rightarrow> Inl e
         | Inr b \<Rightarrow> reloc b (framed (segments env ck
                       (map (\<lambda>(k, v). (k, v, walk_allow_id env cls False)) (pairs_to_walk False ps)))))"
    by (simp add: write_value_VHash_layout write_doc_layout_Nil emitted_def
          del: write_value.simps cong: sum.case_cong)
  show "walk_allow_id env OrderedHash mv = (if mv then 0 else 1)"
    by (simp add: walk_allow_id_def)
  show "walk_allow_id env PlainHash mv = foreach_allow_id env"
    by (simp add: walk_allow_id_def)
next
  assume "key_string key = Some s \<and> c_str s = ''_id''"
  then show "write_element_allow_id env key v buf ck 0 = Inr buf"
    by (simp add: write_element_allow_id.simps)
next
  assume "a \<noteq> 0"
  then show "write_element_allow_id env key v buf ck a = write_element_allow_id env key v buf ck 1"
    by (simp add: write_element_allow_id.simps split: option.splits)
next
  assume "\<not> (has_key doc (KStr ''_id'') \<and> has_key doc (KSym ''_id''))"
  then show "pairs_to_walk False doc = doc"
    by (auto simp: pairs_to_walk_def)
next
  assume "has_key doc (KStr ''_id'') \<and> has_key doc (KSym ''_id'')"
  then show "pairs_to_walk False doc = rb_hash_delete doc (KStr ''_id'')"
    by (simp add: pairs_to_walk_def)
next
  assume "utf8_valid env ''_id'' \<and> foreach_allow_id env = 0"
  then show "method_serialize env PlainHash [(KStr ''_id'', VInt 1)] ck False
          = Inr [CHR 0x05, CHR 0x00, CHR 0x00, CHR 0x00, CHR 0x00]"
    by (simp add: eval_defs)
next
  assume "utf8_valid env ''_id'' \<and> foreach_allow_id env \<noteq> 0"
  then show "method_serialize env PlainHash [(KStr ''_id'', VInt 1)] ck True
          = Inr [CHR 0x17, CHR 0x00, CHR 0x00, CHR 0x00,
                 CHR 0x10, CHR ''_'', CHR ''i'', CHR ''d'', CHR 0x00, CHR 0x01, CHR 0x00, CHR 0x00, CHR 0x00,
                 CHR 0x10, CHR ''_'', CHR ''i'', CHR ''d'', CHR 0x00, CHR 0x01, CHR 0x00, CHR 0x00, CHR 0x00,
                 CHR 0x00]"
    by (simp add: eval_defs)
qed

theorem traversal_allow_id_witness:
  "method_serialize \<lparr>utf8_valid = (\<lambda>s. True), foreach_allow_id = 0\<rparr> PlainHash
      [(KStr ''_id'', VInt 1)] False False
     = Inr [CHR 0x05, CHR 0x00, CHR 0x00, CHR 0x00, CHR 0x00]
   \<and> method_serialize \<lparr>utf8_valid = (\<lambda>s. True), foreach_allow_id = 140737488355327\<rparr> PlainHash
      [(KStr ''_id'', VInt 1)] False True
     = Inr [CHR 0x17, CHR 0x00, CHR 0x00, CHR 0x00,
            CHR 0x10, CHR ''_'', CHR ''i'', CHR ''d'', CHR 0x00, CHR 0x01, CHR 0x00, CHR 0x00, CHR 0x00,
            CHR 0x10, CHR ''_'', CHR ''i'', CHR ''d'', CHR 0x00, CHR 0x01, CHR 0x00, CHR 0x00, CHR 0x00,
            CHR 0x00]
   \<and> method_serialize \<lparr>utf8_valid = (\<lambda>s. True), foreach_allow_id = 0\<rparr> OrderedHash
      [(KStr ''b'', VInt 2), (KSym ''_id'', VInt 7)] False True
     = Inr [CHR 0x15, CHR 0x00, CHR 0x00, CHR 0x00,
            CHR 0x10, CHR ''_'', CHR ''i'', CHR ''d'', CHR 0x00, CHR 0x07, CHR 0x00, CHR 0x00, CHR 0x00,
            CHR 0x10, CHR ''b'', CHR 0x00, CHR 0x02, CHR 0x00, CHR 0x00, CHR 0x00, CHR 0x00]
   \<and> method_serialize \<lparr>utf8_valid = (\<lambda>s. True), foreach_allow_id = 0\<rparr> OrderedHash
      [(KStr ''b'', VInt 2), (KSym ''_id'', VInt 7)] False False
     = Inr [CHR 0x15, CHR 0x00, CHR 0x00, CHR 0x00,
            CHR 0x10, CHR ''b'', CHR 0x00, CHR 0x02, CHR 0x00, CHR 0x00, CHR 0x00,
            CHR 0x10, CHR ''_'', CHR ''i'', CHR ''d'', CHR 0x00, CHR 0x07, CHR 0x00, CHR 0x00, CHR 0x00, CHR 0x00]
   \<and> write_element_allow_id \<lparr>utf8_valid = (\<lambda>s. True), foreach_allow_id = 0\<rparr>
        (KSym ''_id'') (VInt 7) ''xyz'' False 0 = Inr ''xyz''
   \<and> write_element_allow_id \<lparr>utf8_valid = (\<lambda>s. True), foreach_allow_id = 0\<rparr>
        (KSym ''_id'') (VInt 7) ''xyz'' False 5
       = write_element_allow_id \<lparr>utf8_valid = (\<lambda>s. True), foreach_allow_id = 0\<rparr>
        (KSym ''_id'') (VInt 7) ''xyz'' False 1
   \<and> pairs_to_walk False [(KStr ''_id'', VInt 1), (KSym ''_id'', VInt 2)]
       = rb_hash_delete [(KStr ''_id'', VInt 1), (KSym ''_id'', VInt 2)] (KStr ''_id'')"
proof -
  let ?e0 = "\<lparr>utf8_valid = (\<lambda>s. True), foreach_allow_id = 0\<rparr>"
  let ?e1 = "\<lparr>utf8_valid = (\<lambda>s. True), foreach_allow_id = 140737488355327\<rparr>"
  let ?doc = "[(KStr ''b'', VInt 2), (KSym ''_id'', VInt 7)]"
  let ?both = "[(KStr ''_id'', VInt 1), (KSym ''_id'', VInt 2)]"
  note t0 = traversal_allow_id [where env = ?e0 and cls = OrderedHash and doc = ?doc and ck = False
      and key = "KSym ''_id''" and s = "''_id''" and v = "VInt 7" and buf = "''xyz''" and a = 5 and mv = True]
  note t0' = traversal_allow_id [where env = ?e0 and cls = OrderedHash and doc = ?doc and ck = False
      and mv = False]
  note t1 = traversal_allow_id [where env = ?e1 and ck = False]
  note t2 = traversal_allow_id [where doc = ?both]
  have v0: "utf8_valid ?e0 ''_id'' \<and> foreach_allow_id ?e0 = 0" by simp
  have v1: "utf8_valid ?e1 ''_id'' \<and> foreach_allow_id ?e1 \<noteq> 0" by simp
  have k: "key_string (KSym ''_id'') = Some ''_id'' \<and> c_str ''_id'' = ''_id''"
    by (simp add: key_string_def c_str_def)
  have n: "\<not> (has_key ?doc (KStr ''_id'') \<and> has_key ?doc (KSym ''_id''))"
    by (simp add: has_key_def)
  have b: "has_key ?both (KStr ''_id'') \<and> has_key ?both (KSym ''_id'')"
    by (simp add: has_key_def)
  from t0 v0 have 1: "method_serialize ?e0 PlainHash [(KStr ''_id'', VInt 1)] False False
     = Inr [CHR 0x05, CHR 0x00, CHR 0x00, CHR 0x00, CHR 0x00]"
    by blast
  from t1 v1 have 2: "method_serialize ?e1 PlainHash [(KStr ''_id'', VInt 1)] False True
     = Inr [CHR 0x17, CHR 0x00, CHR 0x00, CHR 0x00,
            CHR 0x10, CHR ''_'', CHR ''i'', CHR ''d'', CHR 0x00, CHR 0x01, CHR 0x00, CHR 0x00, CHR 0x00,
            CHR 0x10, CHR ''_'', CHR ''i'', CHR ''d'', CHR 0x00, CHR 0x01, CHR 0x00, CHR 0x00, CHR 0x00,
            CHR 0x00]"
    by blast
  from t0 k have 5: "write_element_allow_id ?e0 (KSym ''_id'') (VInt 7) ''xyz'' False 0 = Inr ''xyz''"
    by blast
  from t0 have 6: "write_element_allow_id ?e0 (KSym ''_id'') (VInt 7) ''xyz'' False 5
       = write_element_allow_id ?e0 (KSym ''_id'') (VInt 7) ''xyz'' False 1"
    by simp
  from t0 n have w: "pairs_to_walk False ?doc = ?doc"
    by blast
  from t2 b have 7: "pairs_to_walk False ?both = rb_hash_delete ?both (KStr ''_id'')"
    by blast
  from t0 have a3: "method_serialize ?e0 OrderedHash ?doc False True
      = framed (segments ?e0 False (map (\<lambda>(k, v). (k, v, 1)) (id_first ?doc)
                 @ map (\<lambda>(k, v). (k, v, walk_allow_id ?e0 OrderedHash True)) ?doc))"
    and wt: "walk_allow_id ?e0 OrderedHash True = (if True then 0 else 1)"
    by blast+
  from t0' have a4: "method_serialize ?e0 OrderedHash ?doc False False
      = framed (segments ?e0 False (map (\<lambda>(k, v). (k, v, walk_allow_id ?e0 OrderedHash False))
                 (pairs_to_walk False ?doc)))"
    and wf: "walk_allow_id ?e0 OrderedHash False = (if False then 0 else 1)"
    by blast+
  have 3: "method_serialize ?e0 OrderedHash ?doc False True
     = Inr [CHR 0x15, CHR 0x00, CHR 0x00, CHR 0x00,
            CHR 0x10, CHR ''_'', CHR ''i'', CHR ''d'', CHR 0x00, CHR 0x07, CHR 0x00, CHR 0x00, CHR 0x00,
            CHR 0x10, CHR ''b'', CHR 0x00, CHR 0x02, CHR 0x00, CHR 0x00, CHR 0x00, CHR 0x00]"
    unfolding a3 wt by (simp add: layout_eval)
  have 4: "method_serialize ?e0 OrderedHash ?doc False False
     = Inr [CHR 0x15, CHR 0x00, CHR 0x00, CHR 0x00,
            CHR 0x10, CHR ''b'', CHR 0x00, CHR 0x02, CHR 0x00, CHR 0x00, CHR 0x00,
            CHR 0x10, CHR ''_'', CHR ''i'', CHR ''d'', CHR 0x00, CHR 0x07, CHR 0x00, CHR 0x00, CHR 0x00, CHR 0x00]"
    unfolding a4 wf w by (simp add: layout_eval)
  from 1 2 3 4 5 6 7 show ?thesis by blast
qed


subsection \<open>The input document\<close>

lemma element_after_same:
  assumes "\<And>env k buf ck. value_after env k v buf ck = v"
  shows "element_after env key v buf ck a = v"
  by (simp add: element_after.simps assms split: option.splits)

lemma pairs_no_id_clash_iff: "pairs_no_id_clash ps \<longleftrightarrow> (\<forall>v \<in> snd ` set ps. no_id_clash v)"
  by (induction ps) auto

lemma items_no_id_clash_iff: "items_no_id_clash vals \<longleftrightarrow> (\<forall>v \<in> set vals. no_id_clash v)"
  by (induction vals) auto

lemma pairs_after_same:
  assumes "\<And>v env k buf ck. v \<in> snd ` set ps \<Longrightarrow> value_after env k v buf ck = v"
  shows "pairs_after env ps buf ck a = ps"
  using assms
proof (induction ps arbitrary: buf)
  case Nil
  then show ?case by simp
next
  case (Cons p ps)
  obtain k v where p: "p = (k, v)" by (cases p)
  have e: "element_after env k v buf ck a = v"
    by (rule element_after_same) (rule Cons.prems, simp add: p)
  have r: "pairs_after env ps b ck a = ps" for b
    by (rule Cons.IH) (rule Cons.prems, simp)
  show ?case
    by (simp add: p e r split: sum.splits)
qed

lemma items_after_same:
  assumes "\<And>v env k buf ck. v \<in> set vals \<Longrightarrow> value_after env k v buf ck = v"
  shows "items_after env vals i buf ck = vals"
  using assms
proof (induction vals arbitrary: buf i)
  case Nil
  then show ?case by simp
next
  case (Cons v vals)
  have e: "element_after env key v buf ck 0 = v" for key
    by (rule element_after_same) (rule Cons.prems, simp)
  have r: "items_after env vals j b ck = vals" for b j
    by (rule Cons.IH) (rule Cons.prems, simp)
  show ?case
    by (simp add: e r split: sum.splits)
qed

lemma store_value_same: "map_of ps k = Some v \<Longrightarrow> store_value k v ps = ps"
  by (induction ps) (auto split: if_splits)

lemma id_first_map_of: "id_first ps = (k, v) # r \<Longrightarrow> map_of ps k = Some v"
  by (auto simp: id_first_def split: option.splits)

lemma doc_after_same:
  assumes V: "\<And>v env k buf ck. v \<in> snd ` set ps \<Longrightarrow> value_after env k v buf ck = v"
    and "mv \<or> \<not> both_id_keys ps"
  shows "doc_after env buf cls ps ck mv = ps"
proof (cases mv)
  case True
  have P: "pairs_after env ps b ck a = ps" for b a
    by (rule pairs_after_same) (rule V)
  show ?thesis
  proof (cases "id_first ps")
    case Nil
    then show ?thesis by (simp add: doc_after.simps True P)
  next
    case (Cons q r)
    obtain idk idv where q: "q = (idk, idv)" by (cases q)
    have m: "map_of ps idk = Some idv"
      using Cons q by (auto dest: id_first_map_of)
    have e: "element_after env idk idv b ck 1 = idv" for b
      by (rule element_after_same) (rule V, rule map_of_snd_in [OF m])
    show ?thesis
      by (simp add: doc_after.simps True P Cons q e store_value_same [OF m] Let_def split: sum.splits)
  qed
next
  case False
  with assms(2) have "pairs_to_walk False ps = ps"
    by (auto simp: pairs_to_walk_def both_id_keys_def)
  moreover have "pairs_after env ps b ck a = ps" for b a
    by (rule pairs_after_same) (rule V)
  ultimately show ?thesis
    by (simp add: doc_after.simps False)
qed

lemma doc_after_delete:
  assumes V: "\<And>v env k buf ck. v \<in> snd ` set ps \<Longrightarrow> value_after env k v buf ck = v"
    and "both_id_keys ps"
  shows "doc_after env buf cls ps ck False = rb_hash_delete ps (KStr ''_id'')"
proof -
  from assms(2) have w: "pairs_to_walk False ps = rb_hash_delete ps (KStr ''_id'')"
    by (simp add: pairs_to_walk_def both_id_keys_def)
  have "pairs_after env (rb_hash_delete ps (KStr ''_id'')) b ck a = rb_hash_delete ps (KStr ''_id'')" for b a
    by (rule pairs_after_same) (rule V, auto simp: rb_hash_delete_def)
  then show ?thesis
    by (simp add: doc_after.simps w)
qed

lemma value_after_same:
  "no_id_clash v \<Longrightarrow> value_after env k v buf ck = v"
proof (induction v arbitrary: env k buf ck)
  case (VHash cls ps)
  have V: "value_after env k v buf ck = v" if "v \<in> snd ` set ps" for v env k buf ck
  proof -
    from that obtain q where q: "q \<in> set ps" "v \<in> Basic_BNFs.snds q"
      by (auto simp: prod_set_defs)
    from VHash.prems that have "no_id_clash v"
      by (auto simp: pairs_no_id_clash_iff)
    then show ?thesis by (rule VHash.IH [OF q])
  qed
  have "doc_after env b cls ps ck False = ps" for b
    by (rule doc_after_same) (use V VHash.prems in auto)
  then show ?case by (simp split: sum.splits)
next
  case (VArray vals)
  have V: "value_after env k v buf ck = v" if "v \<in> set vals" for v env k buf ck
    using VArray.prems that by (intro VArray.IH) (simp_all add: items_no_id_clash_iff)
  have "items_after env vals i b ck = vals" for b i
    by (rule items_after_same) (rule V)
  then show ?case by (simp split: sum.splits)
next
  case (VCode code cls ps)
  have V: "value_after env k v buf ck = v" if "v \<in> snd ` set ps" for v env k buf ck
  proof -
    from that obtain q where q: "q \<in> set ps" "v \<in> Basic_BNFs.snds q"
      by (auto simp: prod_set_defs)
    from VCode.prems that have "no_id_clash v"
      by (auto simp: pairs_no_id_clash_iff)
    then show ?thesis by (rule VCode.IH [OF q])
  qed
  have "doc_after env b cls ps ck False = ps" for b ck
    by (rule doc_after_same) (use V VCode.prems in auto)
  then show ?case by (simp add: Let_def split: sum.splits)
next
  case (VDBRef ns oid)
  have "element_after env key ns b ck a = ns" "element_after env key oid b ck a = oid" for env key b ck a
    using VDBRef.prems by (auto intro!: element_after_same VDBRef.IH)
  then show ?case by (simp add: Let_def split: sum.splits)
qed simp_all

lemmas after_eval = document_after_serialize_def doc_after.simps element_after.simps both_id_keys_def

text \<open>
  C5, as the code has it. \<^verbatim>\<open>serialize\<close> leaves its document as it was, whether it returns
  or raises, when no hash under the values of the document has both keys \<^verbatim>\<open>_id\<close> and
  either \<^verbatim>\<open>move_id\<close> is true or the document itself does not have both. When the document
  has both and \<^verbatim>\<open>move_id\<close> is false, the pair of the String key \<^verbatim>\<open>_id\<close> is gone after
  the call.
\<close>

theorem serialize_input_after:
  "(pairs_no_id_clash doc \<and> (mv \<or> \<not> both_id_keys doc) \<longrightarrow>
      document_after_serialize env cls doc ck mv = doc)
   \<and> (pairs_no_id_clash doc \<and> both_id_keys doc \<longrightarrow>
      document_after_serialize env cls doc ck False = rb_hash_delete doc (KStr ''_id''))"
proof (intro conjI impI)
  assume a: "pairs_no_id_clash doc \<and> (mv \<or> \<not> both_id_keys doc)"
  show "document_after_serialize env cls doc ck mv = doc"
    unfolding document_after_serialize_def
    by (rule doc_after_same) (use a in \<open>auto simp: pairs_no_id_clash_iff intro: value_after_same\<close>)
next
  assume a: "pairs_no_id_clash doc \<and> both_id_keys doc"
  show "document_after_serialize env cls doc ck False = rb_hash_delete doc (KStr ''_id'')"
    unfolding document_after_serialize_def
    by (rule doc_after_delete) (use a in \<open>auto simp: pairs_no_id_clash_iff intro: value_after_same\<close>)
qed

theorem serialize_input_after_witness:
  "document_after_serialize \<lparr>utf8_valid = (\<lambda>s. True), foreach_allow_id = 1\<rparr> OrderedHash
      [(KStr ''_id'', VInt 1), (KStr ''a'', VArray [VInt 2])] True True
     = [(KStr ''_id'', VInt 1), (KStr ''a'', VArray [VInt 2])]
   \<and> document_after_serialize \<lparr>utf8_valid = (\<lambda>s. True), foreach_allow_id = 1\<rparr> OrderedHash
      [(KStr ''_id'', VInt 1), (KSym ''_id'', VInt 2)] False False
     = [(KSym ''_id'', VInt 2)]"
proof -
  let ?env = "\<lparr>utf8_valid = (\<lambda>s. True), foreach_allow_id = 1\<rparr>"
  let ?d1 = "[(KStr ''_id'', VInt 1), (KStr ''a'', VArray [VInt 2])]"
  let ?d2 = "[(KStr ''_id'', VInt 1), (KSym ''_id'', VInt 2)]"
  have 1: "pairs_no_id_clash ?d1 \<and> (True \<or> \<not> both_id_keys ?d1)" by simp
  have 2: "pairs_no_id_clash ?d2 \<and> both_id_keys ?d2" by (simp add: both_id_keys_def has_key_def)
  from serialize_input_after [of ?d1 True ?env OrderedHash True] 1
  have a: "document_after_serialize ?env OrderedHash ?d1 True True = ?d1" by blast
  from serialize_input_after [of ?d2 _ ?env OrderedHash False] 2
  have b: "document_after_serialize ?env OrderedHash ?d2 False False = rb_hash_delete ?d2 (KStr ''_id'')"
    by blast
  show ?thesis using a b by (simp add: rb_hash_delete_def)
qed

text \<open>
  C5 as stated fails: after \<^verbatim>\<open>serialize\<close> with \<^verbatim>\<open>move_id\<close> false, a document with the
  String key and the Symbol key \<^verbatim>\<open>_id\<close> has lost the pair of the String key.
\<close>

theorem serialize_deletes_string_id:
  "document_after_serialize \<lparr>utf8_valid = (\<lambda>s. True), foreach_allow_id = 1\<rparr> OrderedHash
      [(KStr ''_id'', VInt 1), (KSym ''_id'', VInt 2)] False False
     = [(KSym ''_id'', VInt 2)]
   \<and> [(KSym ''_id'', VInt 2)] \<noteq> [(KStr ''_id'', VInt 1), (KSym ''_id'', VInt 2)]"
  by (simp add: after_eval eval_defs)


subsection \<open>Unknown tags\<close>


















subsection \<open>The round trip\<close>

















lemma of_char_char_of: "0 \<le> x \<Longrightarrow> x < 256 \<Longrightarrow> (of_char (char_of x) :: int) = x"
  by simp

































subsection \<open>Integers\<close>

text \<open>
  C2. An integer element that is written (its key is a String or a Symbol, is not skipped and
  passes the key check): a value within \<open>[-2^31, 2^31 - 1]\<close> is written after the tag 0x10 as
  four bytes, low byte first, that read back as the value; any other value within
  \<open>[-2^63, 2^63 - 1]\<close> after the tag 0x12 as eight such bytes; any other value raises the
  RangeError.
\<close>

theorem int_element_tag_and_width:
  assumes "key_string key = Some k"
    and "\<not> (allow_id = 0 \<and> c_str k = ''_id'')"
    and "check_keys \<longrightarrow> check_key_name k = None"
  shows "(- 2147483648 \<le> v \<and> v \<le> 2147483647 \<and> check_string env k True True = VALID \<longrightarrow>
            write_element_allow_id env key (VInt v) buf check_keys allow_id
              = Inr (buf @ [CHR 0x10] @ k @ [CHR 0x00] @ le_bytes 4 v)
            \<and> length (le_bytes 4 v) = 4 \<and> signed_of 32 (le_value (le_bytes 4 v)) = v)
       \<and> ((v < - 2147483648 \<or> 2147483647 < v) \<and> - 9223372036854775808 \<le> v \<and> v \<le> 9223372036854775807
            \<and> check_string env k True True = VALID \<longrightarrow>
            write_element_allow_id env key (VInt v) buf check_keys allow_id
              = Inr (buf @ [CHR 0x12] @ k @ [CHR 0x00] @ le_bytes 8 v)
            \<and> length (le_bytes 8 v) = 8 \<and> signed_of 64 (le_value (le_bytes 8 v)) = v)
       \<and> (v < - 9223372036854775808 \<or> 9223372036854775807 < v \<longrightarrow>
            write_element_allow_id env key (VInt v) buf check_keys allow_id = Inl RangeError)"
proof -
  have go: "write_element_allow_id env key (VInt v) buf check_keys allow_id
              = write_value env k (VInt v) buf check_keys"
    using assms by (auto simp: write_element_allow_id.simps)
  have s4: "- 2147483648 \<le> v \<Longrightarrow> v \<le> 2147483647 \<Longrightarrow> signed_of 32 (le_value (le_bytes 4 v)) = v"
    using signed_of_le_bytes [of 4 v] by simp
  have s8: "- 9223372036854775808 \<le> v \<Longrightarrow> v \<le> 9223372036854775807
              \<Longrightarrow> signed_of 64 (le_value (le_bytes 8 v)) = v"
    using signed_of_le_bytes [of 8 v] by simp
  have c1: "- 2147483648 \<le> v \<and> v \<le> 2147483647 \<and> check_string env k True True = VALID \<longrightarrow>
            write_value env k (VInt v) buf check_keys
              = Inr (buf @ [CHR 0x10] @ k @ [CHR 0x00] @ le_bytes 4 v)
            \<and> length (le_bytes 4 v) = 4 \<and> signed_of 32 (le_value (le_bytes 4 v)) = v"
    using s4 by (simp add: write_name_and_type_valid buffer_write_def)
  have c2: "(v < - 2147483648 \<or> 2147483647 < v) \<and> - 9223372036854775808 \<le> v \<and> v \<le> 9223372036854775807
            \<and> check_string env k True True = VALID \<longrightarrow>
            write_value env k (VInt v) buf check_keys
              = Inr (buf @ [CHR 0x12] @ k @ [CHR 0x00] @ le_bytes 8 v)
            \<and> length (le_bytes 8 v) = 8 \<and> signed_of 64 (le_value (le_bytes 8 v)) = v"
    using s8 by (auto simp: write_name_and_type_valid buffer_write_def)
  have c3: "v < - 9223372036854775808 \<or> 9223372036854775807 < v \<longrightarrow>
            write_value env k (VInt v) buf check_keys = Inl RangeError"
    by auto
  show ?thesis
    unfolding go using c1 c2 c3 by blast
qed

theorem int_element_tag_and_width_witness:
  "write_element_allow_id \<lparr>utf8_valid = (\<lambda>s. True), foreach_allow_id = 1\<rparr> (KStr ''a'') (VInt 1) [] True 0
     = Inr [CHR 0x10, CHR ''a'', CHR 0x00, CHR 0x01, CHR 0x00, CHR 0x00, CHR 0x00]
   \<and> write_element_allow_id \<lparr>utf8_valid = (\<lambda>s. True), foreach_allow_id = 1\<rparr> (KStr ''a'') (VInt 2147483648) [] True 0
     = Inr [CHR 0x12, CHR ''a'', CHR 0x00, CHR 0x00, CHR 0x00, CHR 0x00, CHR 0x80, CHR 0x00, CHR 0x00, CHR 0x00, CHR 0x00]
   \<and> write_element_allow_id \<lparr>utf8_valid = (\<lambda>s. True), foreach_allow_id = 1\<rparr> (KStr ''a'') (VInt 9223372036854775808) [] True 0
     = Inl RangeError"
proof -
  let ?env = "\<lparr>utf8_valid = (\<lambda>s. True), foreach_allow_id = 1\<rparr>"
  have k: "key_string (KStr ''a'') = Some ''a''" by (simp add: key_string_def)
  have i: "\<not> ((0::int) = 0 \<and> c_str ''a'' = ''_id'')" by (simp add: c_str_def)
  have c: "True \<longrightarrow> check_key_name ''a'' = None" by (simp add: check_key_name_def)
  have v: "check_string ?env ''a'' True True = VALID" by (simp add: check_string_def)
  show ?thesis
    using int_element_tag_and_width [OF k i c, of 1 ?env "[]"]
      int_element_tag_and_width [OF k i c, of 2147483648 ?env "[]"]
      int_element_tag_and_width [OF k i c, of 9223372036854775808 ?env "[]"] v
    by (simp add: le_bytes_4 le_bytes_8 char_of_def)
qed


subsection \<open>The empty key\<close>

text \<open>
  C10. With \<open>check_keys\<close> true the empty key passes the key check: the test for \<open>$\<close> is
  made on a key of positive length only and the empty key has no \<open>.\<close>, so the element
  writer goes on to the payload; no InvalidName is raised for it.
\<close>

theorem empty_key_accepted:
  "check_key_name [] = None \<and>
   write_element_allow_id env (KStr []) v buf True allow_id = write_value env [] v buf True \<and>
   write_element_allow_id env (KSym []) v buf True allow_id = write_value env [] v buf True"
  by (simp add: write_element_allow_id.simps check_key_name_def key_string_def c_str_def)

theorem empty_key_accepted_witness:
  "write_element_allow_id \<lparr>utf8_valid = (\<lambda>s. True), foreach_allow_id = 1\<rparr> (KStr []) (VInt 1) [] True 0
     = Inr [CHR 0x10, CHR 0x00, CHR 0x01, CHR 0x00, CHR 0x00, CHR 0x00]"
  using empty_key_accepted [of "\<lparr>utf8_valid = (\<lambda>s. True), foreach_allow_id = 1\<rparr>" "VInt 1" "[]" 0]
  by (simp add: write_name_and_type_def write_utf8_def check_string_def buffer_defs le_bytes_4 char_of_def)
end
